theory Spec2Isabelle
  imports Main "HOL-Library.Word"
begin

section \<open>Configuration and data model (rtos.h)\<close>

text \<open>
  The kernel of \<^verbatim>\<open>src/rtos-kernel\<close>: a priority scheduler with round-robin
  queues.  The configuration constants are the macros of \<^verbatim>\<open>rtos.h\<close>.
\<close>

definition MAX_TASKS :: nat where
  "MAX_TASKS = 8"

definition STACK_SIZE :: nat where
  "STACK_SIZE = 1024"

definition TIME_SLICE_MS :: nat where
  "TIME_SLICE_MS = 10"

definition PRIORITY_LEVELS :: nat where
  "PRIORITY_LEVELS = 4"

datatype task_state_t =
  TASK_READY | TASK_RUNNING | TASK_BLOCKED | TASK_SUSPENDED | TASK_TERMINATED

text \<open>
  A task control block.  A \<^verbatim>\<open>tcb_t*\<close> always points into the static array
  \<^verbatim>\<open>task_pool\<close>, so a pointer is the index of a slot and \<^verbatim>\<open>NULL\<close> is
  \<open>None\<close>.  The fields \<^verbatim>\<open>next\<close> and \<^verbatim>\<open>prev\<close> are called \<open>next_ptr\<close> and
  \<open>prev_ptr\<close>.  The saved registers, the stack addresses and the entry point hold machine
  addresses only; no scheduling decision reads them and they are left out.
\<close>

record tcb_t =
  task_id :: "32 word"
  name :: string
  priority :: "8 word"
  state :: task_state_t
  time_slice_remaining :: "32 word"
  stack_size :: "32 word"
  total_runtime :: "32 word"
  last_run_time :: "32 word"
  wake_time :: "32 word"
  next_ptr :: "nat option"
  prev_ptr :: "nat option"

record scheduler_stats_t =
  total_context_switches :: "32 word"
  total_ticks :: "32 word"
  idle_time :: "32 word"
  tasks_created :: "32 word"
  tasks_deleted :: "32 word"

text \<open>The static variables of \<^verbatim>\<open>scheduler.c\<close>, gathered in one record.\<close>

record kernel =
  ready_queues :: "nat option list"
  current_task :: "nat option"
  idle_task :: "nat option"
  next_task_id :: "32 word"
  scheduler_running :: bool
  system_tick_count :: "32 word"
  stats :: scheduler_stats_t
  task_pool :: "tcb_t list"
  task_pool_used :: "bool list"

text \<open>A zeroed control block (\<^verbatim>\<open>memset\<close> with 0) and zeroed statistics.\<close>

definition zero_tcb :: tcb_t where
  "zero_tcb = \<lparr>task_id = 0, name = [], priority = 0, state = TASK_READY,
     time_slice_remaining = 0, stack_size = 0, total_runtime = 0, last_run_time = 0,
     wake_time = 0, next_ptr = None, prev_ptr = None\<rparr>"

definition zero_stats :: scheduler_stats_t where
  "zero_stats = \<lparr>total_context_switches = 0, total_ticks = 0, idle_time = 0,
     tasks_created = 0, tasks_deleted = 0\<rparr>"

text \<open>The kernel as the C static initialisers leave it at program start.\<close>

definition boot :: kernel where
  "boot = \<lparr>ready_queues = replicate PRIORITY_LEVELS None, current_task = None,
     idle_task = None, next_task_id = 1, scheduler_running = False,
     system_tick_count = 0, stats = zero_stats,
     task_pool = replicate MAX_TASKS zero_tcb,
     task_pool_used = replicate MAX_TASKS False\<rparr>"

text \<open>
  Reading and writing through a task pointer.  A pointer outside the pool cannot be
  dereferenced: the operations below return \<open>None\<close> (a fault) for it, as they do for a
  dereference of \<^verbatim>\<open>NULL\<close> and for an index outside \<^verbatim>\<open>ready_queues\<close>.
\<close>

definition tcb_at :: "kernel \<Rightarrow> nat \<Rightarrow> tcb_t option" where
  "tcb_at s p = (if p < MAX_TASKS then Some (task_pool s ! p) else None)"

definition tcb_upd :: "nat \<Rightarrow> (tcb_t \<Rightarrow> tcb_t) \<Rightarrow> kernel \<Rightarrow> kernel" where
  "tcb_upd p f s = s\<lparr>task_pool := (task_pool s)[p := f (task_pool s ! p)]\<rparr>"

section \<open>Ready queues\<close>

text \<open>\<^verbatim>\<open>add_task_to_ready_queue\<close>: append to the circular list of the task's priority.\<close>

definition add_task_to_ready_queue :: "nat \<Rightarrow> kernel \<Rightarrow> kernel option" where
  "add_task_to_ready_queue task s0 =
     (case tcb_at s0 task of
        None \<Rightarrow> None
      | Some t \<Rightarrow>
          let s = (if state t \<noteq> TASK_READY
                   then tcb_upd task (\<lambda>x. x\<lparr>state := TASK_READY\<rparr>) s0 else s0);
              p = unat (priority t)
          in if \<not> p < PRIORITY_LEVELS then None
             else
               (case ready_queues s ! p of
                  None \<Rightarrow>
                    Some (tcb_upd task (\<lambda>x. x\<lparr>prev_ptr := Some task\<rparr>)
                         (tcb_upd task (\<lambda>x. x\<lparr>next_ptr := Some task\<rparr>)
                         (s\<lparr>ready_queues := (ready_queues s)[p := Some task]\<rparr>)))
                | Some head \<Rightarrow>
                    (case tcb_at s head of
                       None \<Rightarrow> None
                     | Some h \<Rightarrow>
                         (case prev_ptr h of
                            None \<Rightarrow> None
                          | Some lst \<Rightarrow>
                              if \<not> lst < MAX_TASKS then None
                              else
                                Some (tcb_upd head (\<lambda>x. x\<lparr>prev_ptr := Some task\<rparr>)
                                     (tcb_upd lst (\<lambda>x. x\<lparr>next_ptr := Some task\<rparr>)
                                     (tcb_upd task (\<lambda>x. x\<lparr>prev_ptr := Some lst\<rparr>)
                                     (tcb_upd task (\<lambda>x. x\<lparr>next_ptr := Some head\<rparr>) s))))))))"

text \<open>\<^verbatim>\<open>remove_task_from_ready_queue\<close>: every field is read when the C statement reads it.\<close>

definition remove_task_from_ready_queue :: "nat \<Rightarrow> kernel \<Rightarrow> kernel option" where
  "remove_task_from_ready_queue task s =
     (case tcb_at s task of
        None \<Rightarrow> None
      | Some t \<Rightarrow>
          let p = unat (priority t)
          in if \<not> p < PRIORITY_LEVELS then None
             else if ready_queues s ! p = None then Some s
             else if next_ptr t = Some task then
               Some (tcb_upd task (\<lambda>x. x\<lparr>next_ptr := None, prev_ptr := None\<rparr>)
                      (s\<lparr>ready_queues := (ready_queues s)[p := None]\<rparr>))
             else
               (case prev_ptr t of
                  None \<Rightarrow> None
                | Some pv \<Rightarrow>
                    if \<not> pv < MAX_TASKS then None
                    else
                      let s1 = tcb_upd pv (\<lambda>x. x\<lparr>next_ptr := next_ptr t\<rparr>) s
                      in (case next_ptr (task_pool s1 ! task) of
                            None \<Rightarrow> None
                          | Some nx \<Rightarrow>
                              if \<not> nx < MAX_TASKS then None
                              else
                                let s2 = tcb_upd nx
                                           (\<lambda>x. x\<lparr>prev_ptr := prev_ptr (task_pool s1 ! task)\<rparr>) s1;
                                    s3 = (if ready_queues s2 ! p = Some task
                                          then s2\<lparr>ready_queues :=
                                                 (ready_queues s2)[p := next_ptr (task_pool s2 ! task)]\<rparr>
                                          else s2)
                                in Some (tcb_upd task
                                           (\<lambda>x. x\<lparr>next_ptr := None, prev_ptr := None\<rparr>) s3))))"

section \<open>Dispatcher\<close>

text \<open>
  \<^verbatim>\<open>scheduler_get_next_task\<close>: the loop over the priorities, from 0 upwards.  Its result
  is the returned pointer and the new kernel state.
\<close>

fun get_next_from :: "nat list \<Rightarrow> kernel \<Rightarrow> (nat option \<times> kernel) option" where
  "get_next_from [] s = Some (idle_task s, s)"
| "get_next_from (p # ps) s =
     (case ready_queues s ! p of
        Some next_task \<Rightarrow>
          (case tcb_at s next_task of
             None \<Rightarrow> None
           | Some t \<Rightarrow>
               Some (Some next_task, s\<lparr>ready_queues := (ready_queues s)[p := next_ptr t]\<rparr>))
      | None \<Rightarrow> get_next_from ps s)"

definition scheduler_get_next_task :: "kernel \<Rightarrow> (nat option \<times> kernel) option" where
  "scheduler_get_next_task s = get_next_from [0..<PRIORITY_LEVELS] s"

text \<open>\<^verbatim>\<open>context_switch(current, next)\<close>.\<close>

definition context_switch :: "nat option \<Rightarrow> nat option \<Rightarrow> kernel \<Rightarrow> kernel option" where
  "context_switch current nxt s =
     (if current = nxt then Some s
      else
        let s1 = s\<lparr>stats := (stats s)\<lparr>total_context_switches :=
                                         total_context_switches (stats s) + 1\<rparr>\<rparr>
        in case (case current of
                   None \<Rightarrow> Some s1
                 | Some c \<Rightarrow>
                     if \<not> c < MAX_TASKS then None
                     else
                       let s2 = tcb_upd c (\<lambda>x. x\<lparr>last_run_time := system_tick_count s1\<rparr>) s1;
                           s3 = (if state (task_pool s2 ! c) = TASK_RUNNING
                                 then tcb_upd c (\<lambda>x. x\<lparr>total_runtime := total_runtime x + 1\<rparr>) s2
                                 else s2)
                       in if state (task_pool s3 ! c) = TASK_RUNNING
                          then add_task_to_ready_queue c
                                 (tcb_upd c (\<lambda>x. x\<lparr>state := TASK_READY\<rparr>) s3)
                          else Some s3) of
             None \<Rightarrow> None
           | Some s4 \<Rightarrow>
               (case nxt of
                  None \<Rightarrow> Some s4
                | Some n \<Rightarrow>
                    if \<not> n < MAX_TASKS then None
                    else
                      remove_task_from_ready_queue n
                        (tcb_upd n (\<lambda>x. x\<lparr>state := TASK_RUNNING,
                                         time_slice_remaining := of_nat TIME_SLICE_MS\<rparr>)
                           (s4\<lparr>current_task := Some n\<rparr>))))"

section \<open>Tick engine\<close>

text \<open>\<^verbatim>\<open>wake_sleeping_tasks\<close>: one iteration of the loop, and the loop over the slots.\<close>

definition wake_one :: "nat \<Rightarrow> kernel \<Rightarrow> kernel option" where
  "wake_one i s =
     (if task_pool_used s ! i then
        (let task = task_pool s ! i
         in if state task = TASK_BLOCKED \<and> wake_time task > 0
               \<and> system_tick_count s \<ge> wake_time task
            then add_task_to_ready_queue i
                   (tcb_upd i (\<lambda>x. x\<lparr>state := TASK_READY\<rparr>)
                   (tcb_upd i (\<lambda>x. x\<lparr>wake_time := 0\<rparr>) s))
            else Some s)
      else Some s)"

fun wake_loop :: "nat list \<Rightarrow> kernel \<Rightarrow> kernel option" where
  "wake_loop [] s = Some s"
| "wake_loop (i # rest) s =
     (case wake_one i s of None \<Rightarrow> None | Some s' \<Rightarrow> wake_loop rest s')"

definition wake_sleeping_tasks :: "kernel \<Rightarrow> kernel option" where
  "wake_sleeping_tasks s = wake_loop [0..<MAX_TASKS] s"

text \<open>\<^verbatim>\<open>get_highest_priority_ready_task\<close>.\<close>

fun get_highest_from :: "nat list \<Rightarrow> kernel \<Rightarrow> nat option" where
  "get_highest_from [] s = None"
| "get_highest_from (p # ps) s =
     (case ready_queues s ! p of Some t \<Rightarrow> Some t | None \<Rightarrow> get_highest_from ps s)"

definition get_highest_priority_ready_task :: "kernel \<Rightarrow> nat option" where
  "get_highest_priority_ready_task s = get_highest_from [0..<PRIORITY_LEVELS] s"

text \<open>
  The local variable \<^verbatim>\<open>need_reschedule\<close> of \<^verbatim>\<open>scheduler_tick\<close>, for the current task
  \<open>c\<close>; \<open>None\<close> when the head of a queue cannot be dereferenced.
\<close>

definition need_reschedule :: "kernel \<Rightarrow> nat \<Rightarrow> bool option" where
  "need_reschedule s c =
     (case get_highest_priority_ready_task s of
        None \<Rightarrow> Some (time_slice_remaining (task_pool s ! c) = 0)
      | Some h \<Rightarrow>
          if \<not> h < MAX_TASKS then None
          else Some (time_slice_remaining (task_pool s ! c) = 0
                     \<or> priority (task_pool s ! h) < priority (task_pool s ! c)))"

text \<open>
  \<^verbatim>\<open>scheduler_tick\<close> up to the decision: the counters, the time slice of the current task
  \<open>c\<close> and the wake sweep.
\<close>

definition tick_count :: "kernel \<Rightarrow> kernel" where
  "tick_count s = s\<lparr>system_tick_count := system_tick_count s + 1,
                     stats := (stats s)\<lparr>total_ticks := total_ticks (stats s) + 1\<rparr>\<rparr>"

definition tick_slice :: "nat \<Rightarrow> kernel \<Rightarrow> kernel" where
  "tick_slice c s =
     (if time_slice_remaining (task_pool s ! c) > 0
      then tcb_upd c (\<lambda>x. x\<lparr>time_slice_remaining := time_slice_remaining x - 1\<rparr>) s
      else s)"

definition reschedule :: "kernel \<Rightarrow> kernel option" where
  "reschedule s =
     (case scheduler_get_next_task s of
        None \<Rightarrow> None
      | Some (next_task, s') \<Rightarrow> context_switch (current_task s') next_task s')"

definition scheduler_tick :: "kernel \<Rightarrow> kernel option" where
  "scheduler_tick s0 =
     (let s1 = tick_count s0
      in if \<not> scheduler_running s1 then Some s1
         else
           (case current_task s1 of
              None \<Rightarrow> Some s1
            | Some c \<Rightarrow>
                if \<not> c < MAX_TASKS then None
                else
                  (case wake_sleeping_tasks (tick_slice c s1) of
                     None \<Rightarrow> None
                   | Some s3 \<Rightarrow>
                       (case need_reschedule s3 c of
                          None \<Rightarrow> None
                        | Some need \<Rightarrow> if need then reschedule s3 else Some s3))))"

text \<open>
  \<^verbatim>\<open>rtos_start\<close> never returns once a first task exists: after the first switch it calls
  \<^verbatim>\<open>scheduler_tick\<close> in an endless loop.  \<open>rtos_start\<close> below is the function up to that
  loop, and \<open>ticks n\<close> the first \<open>n\<close> iterations of the loop (or \<open>n\<close> timer interrupts).
\<close>

definition rtos_start :: "kernel \<Rightarrow> kernel option" where
  "rtos_start s0 =
     (let s = s0\<lparr>scheduler_running := True\<rparr>
      in case scheduler_get_next_task s of
           None \<Rightarrow> None
         | Some (first_task, s1) \<Rightarrow>
             (case first_task of
                None \<Rightarrow> Some s1
              | Some f \<Rightarrow> context_switch None (Some f) s1))"

fun ticks :: "nat \<Rightarrow> kernel \<Rightarrow> kernel option" where
  "ticks 0 s = Some s"
| "ticks (Suc n) s =
     (case scheduler_tick s of None \<Rightarrow> None | Some s' \<Rightarrow> ticks n s')"

section \<open>Task control\<close>

definition task_yield :: "kernel \<Rightarrow> kernel option" where
  "task_yield s =
     (if \<not> scheduler_running s then Some s
      else
        (case current_task s of
           None \<Rightarrow> Some s
         | Some c \<Rightarrow>
             if \<not> c < MAX_TASKS then None
             else scheduler_tick (tcb_upd c (\<lambda>x. x\<lparr>time_slice_remaining := 0\<rparr>) s)))"

definition task_sleep :: "32 word \<Rightarrow> kernel \<Rightarrow> kernel option" where
  "task_sleep ms s =
     (if \<not> scheduler_running s then Some s
      else
        (case current_task s of
           None \<Rightarrow> Some s
         | Some c \<Rightarrow>
             if \<not> c < MAX_TASKS then None
             else
               reschedule
                 (tcb_upd c (\<lambda>x. x\<lparr>state := TASK_BLOCKED\<rparr>)
                 (tcb_upd c (\<lambda>x. x\<lparr>wake_time := system_tick_count s + ms\<rparr>) s))))"

fun task_get_info_from :: "nat list \<Rightarrow> 32 word \<Rightarrow> kernel \<Rightarrow> nat option" where
  "task_get_info_from [] tid s = None"
| "task_get_info_from (i # rest) tid s =
     (if task_pool_used s ! i \<and> task_id (task_pool s ! i) = tid then Some i
      else task_get_info_from rest tid s)"

definition task_get_info :: "32 word \<Rightarrow> kernel \<Rightarrow> nat option" where
  "task_get_info tid s = task_get_info_from [0..<MAX_TASKS] tid s"

section \<open>Task creation and kernel initialisation\<close>

fun find_free_slot :: "nat list \<Rightarrow> kernel \<Rightarrow> nat option" where
  "find_free_slot [] s = None"
| "find_free_slot (i # rest) s =
     (if \<not> task_pool_used s ! i then Some i else find_free_slot rest s)"

text \<open>
  \<^verbatim>\<open>task_create\<close>; the function pointer and its parameter only fill the saved registers.
  The result is the returned id (0 on failure) and the new state.
\<close>

definition task_create ::
    "string \<Rightarrow> 8 word \<Rightarrow> 32 word \<Rightarrow> kernel \<Rightarrow> (32 word \<times> kernel) option" where
  "task_create nm prio stk s =
     (if \<not> unat prio < PRIORITY_LEVELS then Some (0, s)
      else if unat stk > STACK_SIZE then Some (0, s)
      else
        (case find_free_slot [0..<MAX_TASKS] s of
           None \<Rightarrow> Some (0, s)
         | Some slot \<Rightarrow>
             let s1 = s\<lparr>task_pool_used := (task_pool_used s)[slot := True]\<rparr>;
                 s2 = tcb_upd slot (\<lambda>x. x\<lparr>task_id := next_task_id s1\<rparr>)
                        (s1\<lparr>next_task_id := next_task_id s1 + 1\<rparr>);
                 s3 = tcb_upd slot
                        (\<lambda>x. x\<lparr>name := take 15 nm, priority := prio, state := TASK_READY,
                               time_slice_remaining := of_nat TIME_SLICE_MS,
                               stack_size := stk, total_runtime := 0,
                               last_run_time := system_tick_count s2, wake_time := 0,
                               next_ptr := None, prev_ptr := None\<rparr>) s2
             in (case add_task_to_ready_queue slot s3 of
                   None \<Rightarrow> None
                 | Some s4 \<Rightarrow>
                     let s5 = s4\<lparr>stats := (stats s4)\<lparr>tasks_created :=
                                                       tasks_created (stats s4) + 1\<rparr>\<rparr>
                     in Some (task_id (task_pool s5 ! slot), s5))))"

definition rtos_init :: "kernel \<Rightarrow> (int \<times> kernel) option" where
  "rtos_init s0 =
     (let s = s0\<lparr>ready_queues := replicate PRIORITY_LEVELS None,
                 task_pool := replicate MAX_TASKS zero_tcb,
                 task_pool_used := replicate MAX_TASKS False,
                 stats := zero_stats\<rparr>
      in case task_create ''IDLE'' (of_nat (PRIORITY_LEVELS - 1)) (of_nat STACK_SIZE) s of
           None \<Rightarrow> None
         | Some (idle_id, s1) \<Rightarrow>
             if idle_id = 0 then Some (- 1, s1)
             else Some (0, s1\<lparr>idle_task := task_get_info idle_id s1\<rparr>))"

section \<open>Statistics\<close>

text \<open>
  \<^verbatim>\<open>get_cpu_utilization\<close>: 32-bit unsigned arithmetic, the quotient cut to 8 bits by the
  cast to \<^verbatim>\<open>uint8_t\<close>.
\<close>

definition get_cpu_utilization :: "kernel \<Rightarrow> 8 word" where
  "get_cpu_utilization s =
     (if total_ticks (stats s) = 0 then 0
      else
        let busy_time = total_ticks (stats s) - idle_time (stats s)
        in ucast ((busy_time * 100) div total_ticks (stats s)))"

section \<open>A worked scenario\<close>

text \<open>
  The kernel after \<^verbatim>\<open>rtos_init\<close>, three tasks A, B, C created at priority 1, and
  \<^verbatim>\<open>rtos_start\<close>: the idle task sits in slot 0, A, B, C in slots 1, 2, 3.
\<close>

definition three_tasks :: "kernel option" where
  "three_tasks =
     (case rtos_init boot of
        None \<Rightarrow> None
      | Some (_, s0) \<Rightarrow>
          (case task_create ''A'' 1 512 s0 of
             None \<Rightarrow> None
           | Some (_, s1) \<Rightarrow>
               (case task_create ''B'' 1 512 s1 of
                  None \<Rightarrow> None
                | Some (_, s2) \<Rightarrow>
                    (case task_create ''C'' 1 512 s2 of
                       None \<Rightarrow> None
                     | Some (_, s3) \<Rightarrow> rtos_start s3))))"

text \<open>
  \<open>drive n\<close> runs \<open>n\<close> ticks and records the task that is current after each of them.
\<close>

fun drive :: "nat \<Rightarrow> kernel \<Rightarrow> (nat option list \<times> kernel) option" where
  "drive 0 s = Some ([], s)"
| "drive (Suc n) s =
     (case scheduler_tick s of
        None \<Rightarrow> None
      | Some s' \<Rightarrow>
          (case drive n s' of
             None \<Rightarrow> None
           | Some (tr, s'') \<Rightarrow> Some (current_task s' # tr, s'')))"

section \<open>Abstraction: queues as lists, invariants and record effects\<close>

text \<open>
  The definitions below belong to the proofs, not to the kernel.  A ready queue of the
  kernel is a circular doubly linked list threaded through the task pool; \<open>links\<close> and
  \<open>circ\<close> say when a list of slots is such a ring, \<open>queues_ok\<close> relates the four rings
  to four lists, \<open>tasks_ok\<close> and \<open>idle_ok\<close> constrain the task states, and \<open>queues_of\<close>
  reads the lists off the links.  The functions named \<open>_records\<close> describe what an
  operation does to the records apart from the links, which \<open>bookkeeping\<close> erases.
\<close>

fun links :: "(nat \<Rightarrow> nat option) \<Rightarrow> (nat \<Rightarrow> nat option) \<Rightarrow> nat \<Rightarrow> nat list \<Rightarrow> bool" where
  "links nx pv a [] = True"
| "links nx pv a (b # bs) = (nx a = Some b \<and> pv b = Some a \<and> links nx pv b bs)"

definition circ :: "(nat \<Rightarrow> nat option) \<Rightarrow> (nat \<Rightarrow> nat option) \<Rightarrow> nat list \<Rightarrow> bool" where
  "circ nx pv xs = (case xs of [] \<Rightarrow> True | _ \<Rightarrow> links nx pv (last xs) xs)"

definition nexts :: "kernel \<Rightarrow> nat \<Rightarrow> nat option" where
  "nexts s j = next_ptr (task_pool s ! j)"

definition prevs :: "kernel \<Rightarrow> nat \<Rightarrow> nat option" where
  "prevs s j = prev_ptr (task_pool s ! j)"

definition head_of :: "nat list \<Rightarrow> nat option" where
  "head_of xs = (case xs of [] \<Rightarrow> None | x # _ \<Rightarrow> Some x)"

definition queues_ok :: "kernel \<Rightarrow> nat list list \<Rightarrow> bool" where
  "queues_ok s qs \<longleftrightarrow>
     length (task_pool s) = MAX_TASKS \<and> length (task_pool_used s) = MAX_TASKS \<and>
     length (ready_queues s) = PRIORITY_LEVELS \<and> length qs = PRIORITY_LEVELS \<and>
     (\<forall>p<PRIORITY_LEVELS.
        ready_queues s ! p = head_of (qs ! p) \<and> distinct (qs ! p) \<and>
        circ (nexts s) (prevs s) (qs ! p) \<and>
        (\<forall>t\<in>set (qs ! p). t < MAX_TASKS \<and> unat (priority (task_pool s ! t)) = p))"

definition unlinked :: "tcb_t \<Rightarrow> tcb_t" where
  "unlinked x = x\<lparr>next_ptr := None, prev_ptr := None\<rparr>"

definition bookkeeping :: "kernel \<Rightarrow> kernel" where
  "bookkeeping s = s\<lparr>ready_queues := [], task_pool := map unlinked (task_pool s)\<rparr>"

text \<open>The queue that \<open>scheduler_get_next_task\<close> serves: the first non-empty one.\<close>

definition first_nonempty :: "nat list list \<Rightarrow> nat option" where
  "first_nonempty qs = List.find (\<lambda>p. qs ! p \<noteq> []) [0..<PRIORITY_LEVELS]"

definition advance :: "nat \<Rightarrow> nat list list \<Rightarrow> kernel \<Rightarrow> kernel" where
  "advance p qs s = s\<lparr>ready_queues := (ready_queues s)[p := head_of (rotate1 (qs ! p))]\<rparr>"

text \<open>What \<open>context_switch\<close> does to the task records and counters, the queues aside.\<close>

definition switch_out :: "nat \<Rightarrow> kernel \<Rightarrow> kernel" where
  "switch_out c s =
     (let s2 = tcb_upd c (\<lambda>x. x\<lparr>last_run_time := system_tick_count s\<rparr>) s
      in if state (task_pool s2 ! c) = TASK_RUNNING
         then tcb_upd c (\<lambda>x. x\<lparr>state := TASK_READY\<rparr>)
                (tcb_upd c (\<lambda>x. x\<lparr>total_runtime := total_runtime x + 1\<rparr>) s2)
         else s2)"

definition switch_in :: "nat \<Rightarrow> kernel \<Rightarrow> kernel" where
  "switch_in n s =
     tcb_upd n (\<lambda>x. x\<lparr>state := TASK_RUNNING, time_slice_remaining := of_nat TIME_SLICE_MS\<rparr>)
       (s\<lparr>current_task := Some n\<rparr>)"

definition count_switch :: "kernel \<Rightarrow> kernel" where
  "count_switch s =
     s\<lparr>stats := (stats s)\<lparr>total_context_switches := total_context_switches (stats s) + 1\<rparr>\<rparr>"

definition switch_records :: "nat option \<Rightarrow> nat \<Rightarrow> kernel \<Rightarrow> kernel" where
  "switch_records cur n s =
     switch_in n (case cur of None \<Rightarrow> count_switch s | Some c \<Rightarrow> switch_out c (count_switch s))"

text \<open>The queues after \<open>context_switch cur (Some n)\<close>, from the queues before.\<close>

definition requeue :: "nat option \<Rightarrow> kernel \<Rightarrow> nat list list \<Rightarrow> nat list list" where
  "requeue cur s qs =
     (case cur of
        None \<Rightarrow> qs
      | Some c \<Rightarrow>
          if state (task_pool s ! c) = TASK_RUNNING
          then qs[unat (priority (task_pool s ! c)) :=
                    qs ! unat (priority (task_pool s ! c)) @ [c]]
          else qs)"

definition switch_queues :: "nat option \<Rightarrow> nat \<Rightarrow> kernel \<Rightarrow> nat list list \<Rightarrow> nat list list" where
  "switch_queues cur n s qs =
     (let q1 = requeue cur s qs; p = unat (priority (task_pool s ! n))
      in q1[p := remove1 n (q1 ! p)])"

definition tasks_ok :: "kernel \<Rightarrow> nat list list \<Rightarrow> bool" where
  "tasks_ok s qs \<longleftrightarrow>
     (\<forall>p<PRIORITY_LEVELS. \<forall>t\<in>set (qs ! p).
        task_pool_used s ! t \<and> state (task_pool s ! t) = TASK_READY) \<and>
     (\<forall>t<MAX_TASKS. task_pool_used s ! t \<longrightarrow>
        unat (priority (task_pool s ! t)) < PRIORITY_LEVELS \<and>
        (state (task_pool s ! t) = TASK_READY \<longrightarrow>
           t \<in> set (qs ! unat (priority (task_pool s ! t)))) \<and>
        (state (task_pool s ! t) = TASK_RUNNING \<longleftrightarrow> current_task s = Some t)) \<and>
     (\<forall>c. current_task s = Some c \<longrightarrow> c < MAX_TASKS \<and> task_pool_used s ! c)"

definition idle_ok :: "kernel \<Rightarrow> bool" where
  "idle_ok s \<longleftrightarrow>
     (case idle_task s of
        None \<Rightarrow> False
      | Some i \<Rightarrow> i < MAX_TASKS \<and> task_pool_used s ! i \<and>
          (state (task_pool s ! i) = TASK_READY \<or> state (task_pool s ! i) = TASK_RUNNING))"

definition kernel_inv :: "kernel \<Rightarrow> nat list list \<Rightarrow> bool" where
  "kernel_inv s qs \<longleftrightarrow> queues_ok s qs \<and> tasks_ok s qs \<and> idle_ok s"

text \<open>
  The state in which a switch to a queued task is sound: as \<open>tasks_ok\<close>, but the current
  task, if any, may already have left the state \<open>TASK_RUNNING\<close> (it never is ready).
\<close>

definition pre_switch :: "kernel \<Rightarrow> nat list list \<Rightarrow> bool" where
  "pre_switch s qs \<longleftrightarrow>
     (\<forall>p<PRIORITY_LEVELS. \<forall>t\<in>set (qs ! p).
        task_pool_used s ! t \<and> state (task_pool s ! t) = TASK_READY) \<and>
     (\<forall>t<MAX_TASKS. task_pool_used s ! t \<longrightarrow>
        unat (priority (task_pool s ! t)) < PRIORITY_LEVELS \<and>
        (state (task_pool s ! t) = TASK_READY \<longrightarrow>
           t \<in> set (qs ! unat (priority (task_pool s ! t)))) \<and>
        (state (task_pool s ! t) = TASK_RUNNING \<longrightarrow> current_task s = Some t)) \<and>
     (\<forall>c. current_task s = Some c \<longrightarrow>
        c < MAX_TASKS \<and> task_pool_used s ! c \<and> state (task_pool s ! c) \<noteq> TASK_READY)"

definition wake_due :: "kernel \<Rightarrow> nat \<Rightarrow> bool" where
  "wake_due s i \<longleftrightarrow>
     task_pool_used s ! i \<and> state (task_pool s ! i) = TASK_BLOCKED
     \<and> wake_time (task_pool s ! i) > 0 \<and> system_tick_count s \<ge> wake_time (task_pool s ! i)"

definition wake_records :: "nat \<Rightarrow> kernel \<Rightarrow> kernel" where
  "wake_records i s =
     (if wake_due s i
      then tcb_upd i (\<lambda>x. x\<lparr>state := TASK_READY\<rparr>) (tcb_upd i (\<lambda>x. x\<lparr>wake_time := 0\<rparr>) s)
      else s)"

text \<open>The records after \<open>task_sleep\<close>, before the switch.\<close>

definition sleep_records :: "nat \<Rightarrow> 32 word \<Rightarrow> kernel \<Rightarrow> kernel" where
  "sleep_records c ms s =
     tcb_upd c (\<lambda>x. x\<lparr>state := TASK_BLOCKED\<rparr>)
       (tcb_upd c (\<lambda>x. x\<lparr>wake_time := system_tick_count s + ms\<rparr>) s)"

text \<open>The records after a successful \<open>task_create\<close> into \<open>slot\<close>, the queues aside.\<close>

definition create_records :: "string \<Rightarrow> 8 word \<Rightarrow> 32 word \<Rightarrow> nat \<Rightarrow> kernel \<Rightarrow> kernel" where
  "create_records nm prio stk slot s =
     (let s1 = s\<lparr>task_pool_used := (task_pool_used s)[slot := True]\<rparr>;
          s2 = tcb_upd slot (\<lambda>x. x\<lparr>task_id := next_task_id s1\<rparr>)
                 (s1\<lparr>next_task_id := next_task_id s1 + 1\<rparr>);
          s3 = tcb_upd slot
                 (\<lambda>x. x\<lparr>name := take 15 nm, priority := prio, state := TASK_READY,
                        time_slice_remaining := of_nat TIME_SLICE_MS,
                        stack_size := stk, total_runtime := 0,
                        last_run_time := system_tick_count s2, wake_time := 0,
                        next_ptr := None, prev_ptr := None\<rparr>) s2
      in s3\<lparr>stats := (stats s3)\<lparr>tasks_created := tasks_created (stats s3) + 1\<rparr>\<rparr>)"

text \<open>
  \<open>walk\<close> follows the \<open>next\<close> pointers from \<open>c\<close> until it is back at the head \<open>h\<close>, for at
  most \<open>n\<close> nodes; \<open>queue_of s p\<close> is the ready queue of priority \<open>p\<close> as a list.
\<close>

fun walk :: "(nat \<Rightarrow> nat option) \<Rightarrow> nat \<Rightarrow> nat \<Rightarrow> nat \<Rightarrow> nat list" where
  "walk nx 0 h c = []"
| "walk nx (Suc n) h c =
     c # (case nx c of None \<Rightarrow> [] | Some d \<Rightarrow> if d = h then [] else walk nx n h d)"

definition queue_of :: "kernel \<Rightarrow> nat \<Rightarrow> nat list" where
  "queue_of s p =
     (case ready_queues s ! p of None \<Rightarrow> [] | Some h \<Rightarrow> walk (nexts s) MAX_TASKS h h)"

definition queues_of :: "kernel \<Rightarrow> nat list list" where
  "queues_of s = map (queue_of s) [0..<PRIORITY_LEVELS]"

definition kernel_ok :: "kernel \<Rightarrow> bool" where
  "kernel_ok s \<longleftrightarrow> kernel_inv s (queues_of s)"

text \<open>The invariant as a check that runs: the bounded quantifiers as tests over lists.\<close>

definition kernel_check :: "kernel \<Rightarrow> bool" where
  "kernel_check s \<longleftrightarrow>
     length (task_pool s) = MAX_TASKS \<and> length (task_pool_used s) = MAX_TASKS \<and>
     length (ready_queues s) = PRIORITY_LEVELS \<and>
     list_all (\<lambda>p. ready_queues s ! p = head_of (queue_of s p) \<and> distinct (queue_of s p)
                 \<and> circ (nexts s) (prevs s) (queue_of s p)
                 \<and> list_all (\<lambda>t. t < MAX_TASKS \<and> unat (priority (task_pool s ! t)) = p
                               \<and> task_pool_used s ! t
                               \<and> state (task_pool s ! t) = TASK_READY) (queue_of s p))
       [0..<PRIORITY_LEVELS] \<and>
     list_all (\<lambda>t. \<not> task_pool_used s ! t \<or>
                 (unat (priority (task_pool s ! t)) < PRIORITY_LEVELS \<and>
                  (state (task_pool s ! t) \<noteq> TASK_READY
                     \<or> t \<in> set (queue_of s (unat (priority (task_pool s ! t))))) \<and>
                  ((state (task_pool s ! t) = TASK_RUNNING) = (current_task s = Some t))))
       [0..<MAX_TASKS] \<and>
     (case current_task s of None \<Rightarrow> True
      | Some c \<Rightarrow> c < MAX_TASKS \<and> task_pool_used s ! c) \<and>
     idle_ok s"

text \<open>
  The operations that change the scheduler: task creation, the start of dispatch, the
  tick, yield and sleep, and the two halves of a tick on their own, the dispatcher's switch
  (\<open>scheduler_get_next_task\<close>, then \<open>context_switch\<close>) and the wake sweep.
\<close>

datatype sched_op =
  Create string "8 word" "32 word" | Start | Tick | Yield | Sleep "32 word" | Switch | Sweep

fun step :: "sched_op \<Rightarrow> kernel \<Rightarrow> kernel option" where
  "step (Create nm prio stk) s = map_option snd (task_create nm prio stk s)"
| "step Start s = rtos_start s"
| "step Tick s = scheduler_tick s"
| "step Yield s = task_yield s"
| "step (Sleep ms) s = task_sleep ms s"
| "step Switch s = reschedule s"
| "step Sweep s = wake_sleeping_tasks s"

text \<open>
  The use the code is written for: \<^verbatim>\<open>rtos_start\<close> is called once, before any task runs,
  and the idle task never sleeps (it is ``always ready'').
\<close>

fun allowed :: "sched_op \<Rightarrow> kernel \<Rightarrow> bool" where
  "allowed Start s = (current_task s = None)"
| "allowed (Sleep ms) s = (current_task s \<noteq> idle_task s)"
| "allowed _ s = True"

text \<open>
  \<open>demo\<close> is the kernel \<open>three_tasks\<close> arrives at: A (slot 1) runs, B and C (slots 2, 3)
  wait at priority 1, the idle task (slot 0) at priority 3.  \<open>idle_only\<close> is the kernel
  after \<^verbatim>\<open>rtos_init\<close> and \<^verbatim>\<open>rtos_start\<close> with no task created: the idle task runs and
  every queue is empty.
\<close>

definition demo :: kernel where
  "demo = \<lparr>ready_queues = [None, Some 2, None, Some 0], current_task = Some 1,
     idle_task = Some 0, next_task_id = 5, scheduler_running = True,
     system_tick_count = 0,
     stats = \<lparr>total_context_switches = 1, total_ticks = 0, idle_time = 0,
              tasks_created = 4, tasks_deleted = 0\<rparr>,
     task_pool =
       [\<lparr>task_id = 1, name = ''IDLE'', priority = 3, state = TASK_READY,
         time_slice_remaining = 10, stack_size = 1024, total_runtime = 0,
         last_run_time = 0, wake_time = 0, next_ptr = Some 0, prev_ptr = Some 0\<rparr>,
        \<lparr>task_id = 2, name = ''A'', priority = 1, state = TASK_RUNNING,
         time_slice_remaining = 10, stack_size = 512, total_runtime = 0,
         last_run_time = 0, wake_time = 0, next_ptr = None, prev_ptr = None\<rparr>,
        \<lparr>task_id = 3, name = ''B'', priority = 1, state = TASK_READY,
         time_slice_remaining = 10, stack_size = 512, total_runtime = 0,
         last_run_time = 0, wake_time = 0, next_ptr = Some 3, prev_ptr = Some 3\<rparr>,
        \<lparr>task_id = 4, name = ''C'', priority = 1, state = TASK_READY,
         time_slice_remaining = 10, stack_size = 512, total_runtime = 0,
         last_run_time = 0, wake_time = 0, next_ptr = Some 2, prev_ptr = Some 2\<rparr>,
        zero_tcb, zero_tcb, zero_tcb, zero_tcb],
     task_pool_used = [True, True, True, True, False, False, False, False]\<rparr>"

definition idle_only :: kernel where
  "idle_only = \<lparr>ready_queues = [None, None, None, None], current_task = Some 0,
     idle_task = Some 0, next_task_id = 2, scheduler_running = True,
     system_tick_count = 0,
     stats = \<lparr>total_context_switches = 1, total_ticks = 0, idle_time = 0,
              tasks_created = 1, tasks_deleted = 0\<rparr>,
     task_pool =
       [\<lparr>task_id = 1, name = ''IDLE'', priority = 3, state = TASK_RUNNING,
         time_slice_remaining = 10, stack_size = 1024, total_runtime = 0,
         last_run_time = 0, wake_time = 0, next_ptr = None, prev_ptr = None\<rparr>,
        zero_tcb, zero_tcb, zero_tcb, zero_tcb, zero_tcb, zero_tcb, zero_tcb],
     task_pool_used = [True, False, False, False, False, False, False, False]\<rparr>"

text \<open>
  Two more kernels for the tick.  \<open>demo_tick9\<close> is \<open>demo\<close> nine ticks later: task A still
  runs, with one tick of its slice left.  \<open>demo_urgent\<close> is \<open>demo\<close> after a task H has been
  created at priority 0, higher than that of the running task A.
\<close>

definition demo_tick9 :: kernel where
  "demo_tick9 =
     demo\<lparr>system_tick_count := 9, stats := (stats demo)\<lparr>total_ticks := 9\<rparr>,
          task_pool := (task_pool demo)[1 := (task_pool demo ! 1)\<lparr>time_slice_remaining := 1\<rparr>]\<rparr>"

definition demo_urgent :: kernel where
  "demo_urgent = (case task_create ''H'' 0 512 demo of None \<Rightarrow> demo | Some (_, s) \<Rightarrow> s)"

text \<open>
  \<open>rtos_inits n\<close>: \<^verbatim>\<open>rtos_init\<close> called \<open>n\<close> times in a row, each call returning 0.
\<close>

fun rtos_inits :: "nat \<Rightarrow> kernel \<Rightarrow> kernel option" where
  "rtos_inits 0 s = Some s"
| "rtos_inits (Suc n) s =
     (case rtos_init s of
        None \<Rightarrow> None
      | Some (r, s') \<Rightarrow> if r = 0 then rtos_inits n s' else None)"

text \<open>
  The kernel right after a call of \<^verbatim>\<open>rtos_init\<close> that gave the idle task the id \<open>i\<close>,
  in a program that has not started the scheduler.
\<close>

definition inited :: "32 word \<Rightarrow> kernel" where
  "inited i =
     \<lparr>ready_queues = [None, None, None, Some 0], current_task = None, idle_task = Some 0,
      next_task_id = i + 1, scheduler_running = False, system_tick_count = 0,
      stats = \<lparr>total_context_switches = 0, total_ticks = 0, idle_time = 0,
               tasks_created = 1, tasks_deleted = 0\<rparr>,
      task_pool =
        [\<lparr>task_id = i, name = ''IDLE'', priority = 3, state = TASK_READY,
          time_slice_remaining = 10, stack_size = 1024, total_runtime = 0,
          last_run_time = 0, wake_time = 0, next_ptr = Some 0, prev_ptr = Some 0\<rparr>,
         zero_tcb, zero_tcb, zero_tcb, zero_tcb, zero_tcb, zero_tcb, zero_tcb],
      task_pool_used = [True, False, False, False, False, False, False, False]\<rparr>"

section \<open>Statistics: CPU utilisation\<close>

lemma ticks_stopped:
  "\<not> scheduler_running s \<Longrightarrow>
     ticks n s = Some (s\<lparr>system_tick_count := system_tick_count s + of_nat n,
                         stats := (stats s)\<lparr>total_ticks := total_ticks (stats s) + of_nat n\<rparr>\<rparr>)"
proof (induction n arbitrary: s)
  case 0
  then show ?case by simp
next
  case (Suc n)
  have step: "scheduler_tick s = Some (tick_count s)"
    using Suc.prems by (simp add: scheduler_tick_def tick_count_def Let_def)
  have nr: "\<not> scheduler_running (tick_count s)"
    using Suc.prems by (simp add: tick_count_def)
  show ?case
    by (simp add: step Suc.IH [OF nr]) (simp add: tick_count_def add.assoc add.commute)
qed

text \<open>
  While the product \<open>busy_time * 100\<close> stays below \<open>2^32\<close> and the idle count does not
  exceed the tick count, the function computes the exact percentage.
\<close>

lemma unat_times_100:
  fixes w :: "32 word"
  assumes "unat w * 100 < 2 ^ 32"
  shows "unat (w * 100) = unat w * 100"
proof -
  have "unat w * unat (100 :: 32 word) < 2 ^ LENGTH(32)" using assms by simp
  then have "unat (w * 100) = unat w * unat (100 :: 32 word)"
    by (simp only: unat_mult_lem)
  then show ?thesis by simp
qed

lemma cpu_utilization_small:
  assumes "idle_time (stats s) \<le> total_ticks (stats s)"
    and "(unat (total_ticks (stats s)) - unat (idle_time (stats s))) * 100 < 2 ^ 32"
    and "total_ticks (stats s) \<noteq> 0"
  shows "unat (get_cpu_utilization s) =
           (unat (total_ticks (stats s)) - unat (idle_time (stats s))) * 100
             div unat (total_ticks (stats s))"
proof -
  define t where "t = total_ticks (stats s)"
  define b where "b = total_ticks (stats s) - idle_time (stats s)"
  have ub: "unat b = unat t - unat (idle_time (stats s))"
    using assms(1) unfolding b_def t_def by (simp add: unat_sub)
  have m: "unat (b * 100) = unat b * 100"
    using assms(2) ub unfolding t_def by (intro unat_times_100) simp
  have d: "unat ((b * 100) div t) = unat b * 100 div unat t"
    by (simp only: unat_div m)
  have le: "unat b * 100 div unat t \<le> 100"
  proof -
    have "unat b * 100 \<le> unat t * 100" using ub by simp
    then have "unat b * 100 div unat t \<le> unat t * 100 div unat t"
      by (rule div_le_mono)
    also have "\<dots> \<le> 100" by simp
    finally show ?thesis .
  qed
  have "unat (ucast ((b * 100) div t) :: 8 word) = unat b * 100 div unat t"
    using d le by (simp add: unsigned_ucast_eq take_bit_nat_eq_self)
  moreover have "get_cpu_utilization s = ucast ((b * 100) div t)"
    using assms(3) unfolding get_cpu_utilization_def b_def t_def by (simp add: Let_def)
  ultimately show ?thesis using ub unfolding t_def by simp
qed

text \<open>
  C10.  The reported utilisation is \<open>(total_ticks - idle_ticks) * 100 / total_ticks\<close> in
  exact integer arithmetic.  The code multiplies in 32 bits: after 50000000 ticks with no
  idle time the exact value is 100, and the function returns 14.
\<close>

theorem cpu_utilization_wraps:
  "\<exists>s. ticks 50000000 boot = Some s
       \<and> total_ticks (stats s) = 50000000 \<and> idle_time (stats s) = 0
       \<and> (50000000 - 0) * 100 div 50000000 = (100 :: nat)
       \<and> get_cpu_utilization s = 14"
proof -
  have nr: "\<not> scheduler_running boot" by (simp add: boot_def)
  define s where "s = boot\<lparr>system_tick_count := system_tick_count boot + of_nat 50000000,
       stats := (stats boot)\<lparr>total_ticks := total_ticks (stats boot) + of_nat 50000000\<rparr>\<rparr>"
  have run: "ticks 50000000 boot = Some s"
    unfolding s_def by (rule ticks_stopped [OF nr])
  have tt: "total_ticks (stats s) = 50000000" and it: "idle_time (stats s) = 0"
    by (simp_all add: s_def boot_def zero_stats_def)
  have "get_cpu_utilization s = 14"
    by (simp add: get_cpu_utilization_def tt it)
  with run tt it show ?thesis by simp
qed

section \<open>Round robin: runtime accounting\<close>

text \<open>
  C1.  Three tasks at priority 1 with the time slice of 10 ticks, driven for 30 ticks, are
  dispatched in queue order, cyclically: slot 1 runs for the first 10 ticks, then slot 2,
  then slot 3, and the 30th tick hands over to slot 1 again.  Each has then run for 10
  ticks, and the code has credited each \<open>total_runtime = 1\<close>: \<^verbatim>\<open>context_switch\<close>
  adds one per switch, not one per tick.
\<close>

theorem round_robin_runtime_credit:
  "(case three_tasks of
      None \<Rightarrow> False
    | Some s \<Rightarrow>
        current_task s = Some 1
        \<and> (case drive 30 s of
             None \<Rightarrow> False
           | Some (tr, s') \<Rightarrow>
               tr = replicate 9 (Some 1) @ replicate 10 (Some 2)
                      @ replicate 10 (Some 3) @ [Some 1]
               \<and> map total_runtime (take 4 (task_pool s')) = [0, 1, 1, 1]))"
  by code_simp

section \<open>Circular doubly linked lists\<close>

lemma links_append:
  "links nx pv a (bs @ cs) = (links nx pv a bs \<and> links nx pv (last (a # bs)) cs)"
  by (induction bs arbitrary: a) auto

lemma circ_eq: "circ nx pv xs = links nx pv (last xs) xs"
  by (cases xs) (simp_all add: circ_def)

lemma circ_Nil [simp]: "circ nx pv []"
  by (simp add: circ_def)

lemma circ_rotate: "circ nx pv (as @ bs) = circ nx pv (bs @ as)"
proof (cases "as = [] \<or> bs = []")
  case True
  then show ?thesis by auto
next
  case False
  then show ?thesis by (auto simp: circ_eq links_append)
qed

lemma links_cong:
  "\<lbrakk>\<forall>j\<in>set (butlast (a # bs)). nx' j = nx j; \<forall>j\<in>set bs. pv' j = pv j\<rbrakk>
     \<Longrightarrow> links nx' pv' a bs = links nx pv a bs"
  by (induction bs arbitrary: a) auto

lemma circ_cong:
  assumes "\<forall>j\<in>set xs. nx' j = nx j" and "\<forall>j\<in>set xs. pv' j = pv j"
  shows "circ nx' pv' xs = circ nx pv xs"
proof (cases xs)
  case Nil
  then show ?thesis by simp
next
  case (Cons x ys)
  have "set (butlast (last xs # xs)) \<subseteq> set xs"
    using Cons by (auto dest: in_set_butlastD)
  then have "links nx' pv' (last xs) xs = links nx pv (last xs) xs"
    using assms by (intro links_cong) auto
  then show ?thesis by (simp add: circ_eq)
qed

lemma circ_ends:
  assumes "circ nx pv xs" and "xs \<noteq> []"
  shows "nx (last xs) = Some (hd xs)" and "pv (hd xs) = Some (last xs)"
  using assms by (cases xs; simp add: circ_eq)+

lemma circ_single: "circ nx pv [t] = (nx t = Some t \<and> pv t = Some t)"
  by (simp add: circ_eq)

lemma last_notin_butlast: "distinct xs \<Longrightarrow> xs \<noteq> [] \<Longrightarrow> last xs \<notin> set (butlast xs)"
  by (induction xs) auto

lemma circ_snoc:
  assumes c: "circ nx pv xs" and d: "distinct xs" and ne: "xs \<noteq> []" and t: "t \<notin> set xs"
  shows "circ (nx(t := Some (hd xs), last xs := Some t))
              (pv(t := Some (last xs), hd xs := Some t)) (xs @ [t])"
proof -
  obtain h rest where xs: "xs = h # rest" using ne by (cases xs) auto
  define nx' where "nx' = nx(t := Some (hd xs), last xs := Some t)"
  define pv' where "pv' = pv(t := Some (last xs), hd xs := Some t)"
  have old: "links nx pv h rest" using c xs by (simp add: circ_eq)
  have "links nx' pv' h rest = links nx pv h rest"
  proof (rule links_cong)
    have "last xs \<notin> set (butlast xs)" using d ne by (rule last_notin_butlast)
    moreover have "t \<notin> set (butlast xs)" using t by (auto dest: in_set_butlastD)
    ultimately show "\<forall>j\<in>set (butlast (h # rest)). nx' j = nx j"
      unfolding nx'_def xs by auto
    show "\<forall>j\<in>set rest. pv' j = pv j"
      using d t unfolding pv'_def xs by auto
  qed
  with old have inner: "links nx' pv' h rest" by simp
  have neq: "t \<noteq> last xs" "t \<noteq> h" using t xs ne by (auto dest: last_in_set)
  have ends: "nx' t = Some h" "pv' h = Some t" "nx' (last xs) = Some t" "pv' t = Some (last xs)"
    using neq unfolding nx'_def pv'_def xs by auto
  have "circ nx' pv' (xs @ [t]) = (links nx' pv' t xs \<and> links nx' pv' (last xs) [t])"
    using ne by (simp add: circ_eq links_append)
  also have "\<dots>" using inner ends by (simp add: xs)
  finally have "circ nx' pv' (xs @ [t])" by simp
  then show ?thesis by (simp only: nx'_def pv'_def)
qed

lemma circ_remove_hd:
  assumes c: "circ nx pv (t # ys)" and d: "distinct (t # ys)" and ne: "ys \<noteq> []"
  shows "circ (nx(last ys := Some (hd ys), t := None))
              (pv(hd ys := Some (last ys), t := None)) ys"
proof -
  obtain y rest where ys: "ys = y # rest" using ne by (cases ys) auto
  define nx' where "nx' = nx(last ys := Some (hd ys), t := None)"
  define pv' where "pv' = pv(hd ys := Some (last ys), t := None)"
  have old: "links nx pv y rest" using c ys by (simp add: circ_eq)
  have "links nx' pv' y rest = links nx pv y rest"
  proof (rule links_cong)
    have "last ys \<notin> set (butlast ys)" using d ne by (intro last_notin_butlast) auto
    moreover have "t \<notin> set (butlast ys)" using d by (auto dest: in_set_butlastD)
    ultimately show "\<forall>j\<in>set (butlast (y # rest)). nx' j = nx j"
      unfolding nx'_def ys by auto
    show "\<forall>j\<in>set rest. pv' j = pv j"
      using d unfolding pv'_def ys by auto
  qed
  with old have inner: "links nx' pv' y rest" by simp
  have neq: "t \<noteq> last ys" "t \<noteq> y" using d ys ne by (auto dest: last_in_set)
  have ends: "nx' (last ys) = Some y" "pv' y = Some (last ys)"
    using neq unfolding nx'_def pv'_def ys by auto
  have "circ nx' pv' ys = (nx' (last ys) = Some y \<and> pv' y = Some (last ys) \<and> links nx' pv' y rest)"
    by (simp add: circ_eq ys)
  with inner ends have "circ nx' pv' ys" by simp
  then show ?thesis by (simp only: nx'_def pv'_def)
qed

lemma circ_hd_links:
  assumes "circ nx pv (t # ys)" and "ys \<noteq> []"
  shows "nx t = Some (hd ys)" and "pv t = Some (last ys)"
  using assms by (cases ys; simp add: circ_eq)+

lemma tcb_upd_simps [simp]:
  "ready_queues (tcb_upd p f s) = ready_queues s"
  "current_task (tcb_upd p f s) = current_task s"
  "idle_task (tcb_upd p f s) = idle_task s"
  "next_task_id (tcb_upd p f s) = next_task_id s"
  "scheduler_running (tcb_upd p f s) = scheduler_running s"
  "system_tick_count (tcb_upd p f s) = system_tick_count s"
  "stats (tcb_upd p f s) = stats s"
  "task_pool_used (tcb_upd p f s) = task_pool_used s"
  "length (task_pool (tcb_upd p f s)) = length (task_pool s)"
  by (simp_all add: tcb_upd_def)

lemma nth_list_update_if:
  "(xs[i := x]) ! j = (if i = j \<and> i < length xs then x else xs ! j)"
  by (cases "i < length xs") (auto simp: nth_list_update list_update_beyond not_less)

lemma tcb_upd_nth:
  "task_pool (tcb_upd p f s) ! j =
     (if j = p \<and> p < length (task_pool s) then f (task_pool s ! p) else task_pool s ! j)"
  by (auto simp: tcb_upd_def nth_list_update_if)

lemma nexts_tcb_upd:
  "p < length (task_pool s) \<Longrightarrow>
     nexts (tcb_upd p f s) = (nexts s)(p := next_ptr (f (task_pool s ! p)))"
  by (rule ext) (simp add: nexts_def tcb_upd_nth)

lemma prevs_tcb_upd:
  "p < length (task_pool s) \<Longrightarrow>
     prevs (tcb_upd p f s) = (prevs s)(p := prev_ptr (f (task_pool s ! p)))"
  by (rule ext) (simp add: prevs_def tcb_upd_nth)

lemma nexts_tcb_upd_same:
  "(\<And>x. next_ptr (f x) = next_ptr x) \<Longrightarrow> nexts (tcb_upd p f s) = nexts s"
  by (rule ext) (simp add: nexts_def tcb_upd_nth)

lemma prevs_tcb_upd_same:
  "(\<And>x. prev_ptr (f x) = prev_ptr x) \<Longrightarrow> prevs (tcb_upd p f s) = prevs s"
  by (rule ext) (simp add: prevs_def tcb_upd_nth)

lemma nexts_rq [simp]: "nexts (s\<lparr>ready_queues := r\<rparr>) = nexts s"
  and prevs_rq [simp]: "prevs (s\<lparr>ready_queues := r\<rparr>) = prevs s"
  by (rule ext, simp add: nexts_def prevs_def)+

lemma bookkeeping_tcb_upd:
  "(\<And>x. unlinked (f x) = unlinked (g x)) \<Longrightarrow>
     bookkeeping (tcb_upd p f s) = bookkeeping (tcb_upd p g s)"
  by (simp add: bookkeeping_def tcb_upd_def map_update)

lemma tcb_upd_id: "f (task_pool s ! p) = task_pool s ! p \<Longrightarrow> tcb_upd p f s = s"
  by (simp add: tcb_upd_def)

lemma bookkeeping_links:
  "(\<And>x. unlinked (f x) = unlinked x) \<Longrightarrow> bookkeeping (tcb_upd p f s) = bookkeeping s"
proof -
  assume "\<And>x. unlinked (f x) = unlinked x"
  then have "bookkeeping (tcb_upd p f s) = bookkeeping (tcb_upd p (\<lambda>x. x) s)"
    by (intro bookkeeping_tcb_upd) simp
  then show ?thesis by (simp add: tcb_upd_id)
qed

lemma bookkeeping_rq [simp]: "bookkeeping (s\<lparr>ready_queues := r\<rparr>) = bookkeeping s"
  by (simp add: bookkeeping_def)

text \<open>The result of an enqueue, case by case.\<close>

lemma add_empty:
  assumes "t < MAX_TASKS" and "unat (priority (task_pool s ! t)) = p" and "p < PRIORITY_LEVELS"
    and "ready_queues s ! p = None" and "length (task_pool s) = MAX_TASKS"
  shows "\<exists>s'. add_task_to_ready_queue t s = Some s'
      \<and> ready_queues s' = (ready_queues s)[p := Some t]
      \<and> nexts s' = (nexts s)(t := Some t) \<and> prevs s' = (prevs s)(t := Some t)
      \<and> bookkeeping s' = bookkeeping (tcb_upd t (\<lambda>x. x\<lparr>state := TASK_READY\<rparr>) s)"
proof -
  define s1 where "s1 = (if state (task_pool s ! t) \<noteq> TASK_READY
                          then tcb_upd t (\<lambda>x. x\<lparr>state := TASK_READY\<rparr>) s else s)"
  have s1: "s1 = tcb_upd t (\<lambda>x. x\<lparr>state := TASK_READY\<rparr>) s"
    by (simp add: s1_def tcb_upd_id)
  have l1: "length (task_pool s1) = MAX_TASKS" "ready_queues s1 = ready_queues s"
    using assms by (simp_all add: s1)
  define s' where "s' = tcb_upd t (\<lambda>x. x\<lparr>prev_ptr := Some t\<rparr>)
                         (tcb_upd t (\<lambda>x. x\<lparr>next_ptr := Some t\<rparr>)
                         (s1\<lparr>ready_queues := (ready_queues s1)[p := Some t]\<rparr>))"
  have run: "add_task_to_ready_queue t s = Some s'"
    using assms l1 by (simp add: add_task_to_ready_queue_def tcb_at_def Let_def s1_def [symmetric] s'_def)
  have "ready_queues s' = (ready_queues s)[p := Some t]"
    by (simp add: s'_def l1)
  moreover have "nexts s' = (nexts s)(t := Some t)"
    using assms by (intro ext) (simp add: s'_def s1 nexts_def tcb_upd_nth)
  moreover have "prevs s' = (prevs s)(t := Some t)"
    using assms by (intro ext) (simp add: s'_def s1 prevs_def tcb_upd_nth)
  moreover have "bookkeeping s' = bookkeeping s1"
    by (simp add: s'_def bookkeeping_links unlinked_def)
  ultimately show ?thesis using run s1 by simp
qed

lemma add_nonempty:
  assumes "t < MAX_TASKS" and "unat (priority (task_pool s ! t)) = p" and "p < PRIORITY_LEVELS"
    and "ready_queues s ! p = Some h" and "h < MAX_TASKS"
    and "prev_ptr (task_pool s ! h) = Some l" and "l < MAX_TASKS"
    and "length (task_pool s) = MAX_TASKS" and "t \<noteq> h" and "t \<noteq> l"
  shows "\<exists>s'. add_task_to_ready_queue t s = Some s'
      \<and> ready_queues s' = ready_queues s
      \<and> nexts s' = (nexts s)(t := Some h, l := Some t)
      \<and> prevs s' = (prevs s)(t := Some l, h := Some t)
      \<and> bookkeeping s' = bookkeeping (tcb_upd t (\<lambda>x. x\<lparr>state := TASK_READY\<rparr>) s)"
proof -
  define s1 where "s1 = (if state (task_pool s ! t) \<noteq> TASK_READY
                          then tcb_upd t (\<lambda>x. x\<lparr>state := TASK_READY\<rparr>) s else s)"
  have s1: "s1 = tcb_upd t (\<lambda>x. x\<lparr>state := TASK_READY\<rparr>) s"
    by (simp add: s1_def tcb_upd_id)
  have l1: "length (task_pool s1) = MAX_TASKS" "ready_queues s1 = ready_queues s"
    "prev_ptr (task_pool s1 ! h) = Some l"
    using assms by (simp_all add: s1 tcb_upd_nth)
  define s' where "s' = tcb_upd h (\<lambda>x. x\<lparr>prev_ptr := Some t\<rparr>)
                         (tcb_upd l (\<lambda>x. x\<lparr>next_ptr := Some t\<rparr>)
                         (tcb_upd t (\<lambda>x. x\<lparr>prev_ptr := Some l\<rparr>)
                         (tcb_upd t (\<lambda>x. x\<lparr>next_ptr := Some h\<rparr>) s1)))"
  have run: "add_task_to_ready_queue t s = Some s'"
    using assms l1
    by (simp add: add_task_to_ready_queue_def tcb_at_def Let_def s1_def [symmetric] s'_def)
  have "ready_queues s' = ready_queues s"
    by (simp add: s'_def l1)
  moreover have "nexts s' = (nexts s)(t := Some h, l := Some t)"
    using assms by (intro ext) (simp add: s'_def s1 nexts_def tcb_upd_nth)
  moreover have "prevs s' = (prevs s)(t := Some l, h := Some t)"
    using assms by (intro ext) (simp add: s'_def s1 prevs_def tcb_upd_nth)
  moreover have "bookkeeping s' = bookkeeping s1"
    by (simp add: s'_def bookkeeping_links unlinked_def)
  ultimately show ?thesis using run s1 by simp
qed

text \<open>The result of a dequeue, case by case.\<close>

lemma remove_absent:
  assumes "t < MAX_TASKS" and "unat (priority (task_pool s ! t)) = p" and "p < PRIORITY_LEVELS"
    and "ready_queues s ! p = None"
  shows "remove_task_from_ready_queue t s = Some s"
  using assms by (simp add: remove_task_from_ready_queue_def tcb_at_def Let_def)

lemma remove_single:
  assumes "t < MAX_TASKS" and "unat (priority (task_pool s ! t)) = p" and "p < PRIORITY_LEVELS"
    and "ready_queues s ! p = Some h" and "next_ptr (task_pool s ! t) = Some t"
    and "length (task_pool s) = MAX_TASKS"
  shows "\<exists>s'. remove_task_from_ready_queue t s = Some s'
      \<and> ready_queues s' = (ready_queues s)[p := None]
      \<and> nexts s' = (nexts s)(t := None) \<and> prevs s' = (prevs s)(t := None)
      \<and> bookkeeping s' = bookkeeping s"
proof -
  define s' where "s' = tcb_upd t (\<lambda>x. x\<lparr>next_ptr := None, prev_ptr := None\<rparr>)
                          (s\<lparr>ready_queues := (ready_queues s)[p := None]\<rparr>)"
  have run: "remove_task_from_ready_queue t s = Some s'"
    using assms by (simp add: remove_task_from_ready_queue_def tcb_at_def Let_def s'_def)
  have "ready_queues s' = (ready_queues s)[p := None]"
    by (simp add: s'_def)
  moreover have "nexts s' = (nexts s)(t := None)"
    using assms by (intro ext) (simp add: s'_def nexts_def tcb_upd_nth)
  moreover have "prevs s' = (prevs s)(t := None)"
    using assms by (intro ext) (simp add: s'_def prevs_def tcb_upd_nth)
  moreover have "bookkeeping s' = bookkeeping s"
    by (simp add: s'_def bookkeeping_links unlinked_def)
  ultimately show ?thesis using run by simp
qed

lemma remove_multi:
  assumes "t < MAX_TASKS" and "unat (priority (task_pool s ! t)) = p" and "p < PRIORITY_LEVELS"
    and "ready_queues s ! p = Some h"
    and "next_ptr (task_pool s ! t) = Some n" and "n \<noteq> t" and "n < MAX_TASKS"
    and "prev_ptr (task_pool s ! t) = Some v" and "v \<noteq> t" and "v < MAX_TASKS"
    and "length (task_pool s) = MAX_TASKS"
  shows "\<exists>s'. remove_task_from_ready_queue t s = Some s'
      \<and> ready_queues s' = (if h = t then (ready_queues s)[p := Some n] else ready_queues s)
      \<and> nexts s' = (nexts s)(v := Some n, t := None)
      \<and> prevs s' = (prevs s)(n := Some v, t := None)
      \<and> bookkeeping s' = bookkeeping s"
proof -
  define s1 where "s1 = tcb_upd v (\<lambda>x. x\<lparr>next_ptr := Some n\<rparr>) s"
  define s2 where "s2 = tcb_upd n (\<lambda>x. x\<lparr>prev_ptr := Some v\<rparr>) s1"
  define s3 where "s3 = (if h = t then s2\<lparr>ready_queues := (ready_queues s2)[p := Some n]\<rparr> else s2)"
  define s' where "s' = tcb_upd t (\<lambda>x. x\<lparr>next_ptr := None, prev_ptr := None\<rparr>) s3"
  have r1: "next_ptr (task_pool s1 ! t) = Some n" "prev_ptr (task_pool s1 ! t) = Some v"
    "next_ptr (task_pool s2 ! t) = Some n" "ready_queues s2 = ready_queues s"
    using assms by (simp_all add: s1_def s2_def tcb_upd_nth)
  have run: "remove_task_from_ready_queue t s = Some s'"
    using assms r1
    by (simp add: remove_task_from_ready_queue_def tcb_at_def Let_def
        s1_def [symmetric] s2_def [symmetric] s3_def s'_def)
  have "ready_queues s' = (if h = t then (ready_queues s)[p := Some n] else ready_queues s)"
    by (simp add: s'_def s3_def r1)
  moreover have "nexts s' = (nexts s)(v := Some n, t := None)"
    using assms by (intro ext) (simp add: s'_def s3_def s2_def s1_def nexts_def tcb_upd_nth)
  moreover have "prevs s' = (prevs s)(n := Some v, t := None)"
    using assms by (intro ext) (simp add: s'_def s3_def s2_def s1_def prevs_def tcb_upd_nth)
  moreover have "bookkeeping s' = bookkeeping s"
    by (simp add: s'_def s3_def s2_def s1_def bookkeeping_links unlinked_def)
  ultimately show ?thesis using run by simp
qed

text \<open>The result of \<open>scheduler_get_next_task\<close>.\<close>

lemma get_next_from_none:
  "\<forall>p\<in>set ps. ready_queues s ! p = None \<Longrightarrow> get_next_from ps s = Some (idle_task s, s)"
  by (induction ps) auto

lemma get_next_from_first:
  assumes "\<forall>q\<in>set as. ready_queues s ! q = None" and "ready_queues s ! p = Some h"
    and "h < MAX_TASKS"
  shows "get_next_from (as @ p # bs) s =
           Some (Some h, s\<lparr>ready_queues := (ready_queues s)[p := next_ptr (task_pool s ! h)]\<rparr>)"
  using assms by (induction as) (auto simp: tcb_at_def)

lemma upt_split: "p < n \<Longrightarrow> [0..<n] = [0..<p] @ p # [Suc p..<n]"
  by (metis upt_conv_Cons upt_add_eq_append le0 le_add_diff_inverse less_imp_le_nat plus_nat.add_0)

lemma get_next_none:
  "\<forall>p<PRIORITY_LEVELS. ready_queues s ! p = None \<Longrightarrow>
     scheduler_get_next_task s = Some (idle_task s, s)"
  by (simp add: scheduler_get_next_task_def get_next_from_none)

lemma get_next_first:
  assumes "p < PRIORITY_LEVELS" and "\<forall>q<p. ready_queues s ! q = None"
    and "ready_queues s ! p = Some h" and "h < MAX_TASKS"
  shows "scheduler_get_next_task s =
           Some (Some h, s\<lparr>ready_queues := (ready_queues s)[p := next_ptr (task_pool s ! h)]\<rparr>)"
proof -
  have "[0..<PRIORITY_LEVELS] = [0..<p] @ p # [Suc p..<PRIORITY_LEVELS]"
    using assms(1) by (rule upt_split)
  then show ?thesis
    using assms by (simp add: scheduler_get_next_task_def get_next_from_first)
qed

lemma get_highest_from_none:
  "\<forall>p\<in>set ps. ready_queues s ! p = None \<Longrightarrow> get_highest_from ps s = None"
  by (induction ps) auto

lemma get_highest_from_first:
  assumes "\<forall>q\<in>set as. ready_queues s ! q = None" and "ready_queues s ! p = Some h"
  shows "get_highest_from (as @ p # bs) s = Some h"
  using assms by (induction as) auto

lemma get_highest_none:
  "\<forall>p<PRIORITY_LEVELS. ready_queues s ! p = None \<Longrightarrow> get_highest_priority_ready_task s = None"
  by (simp add: get_highest_priority_ready_task_def get_highest_from_none)

lemma get_highest_first:
  assumes "p < PRIORITY_LEVELS" and "\<forall>q<p. ready_queues s ! q = None"
    and "ready_queues s ! p = Some h"
  shows "get_highest_priority_ready_task s = Some h"
proof -
  have "[0..<PRIORITY_LEVELS] = [0..<p] @ p # [Suc p..<PRIORITY_LEVELS]"
    using assms(1) by (rule upt_split)
  then show ?thesis
    using assms by (simp add: get_highest_priority_ready_task_def get_highest_from_first)
qed

lemma bookkeeping_globals:
  assumes "bookkeeping a = bookkeeping b"
  shows "length (task_pool a) = length (task_pool b)"
    and "task_pool_used a = task_pool_used b"
    and "current_task a = current_task b"
    and "idle_task a = idle_task b"
    and "next_task_id a = next_task_id b"
    and "scheduler_running a = scheduler_running b"
    and "system_tick_count a = system_tick_count b"
    and "stats a = stats b"
proof -
  have m: "map unlinked (task_pool a) = map unlinked (task_pool b)"
    using assms by (simp add: bookkeeping_def) (metis kernel.select_convs(8) kernel.surjective kernel.update_convs(1) kernel.update_convs(8))
  show "length (task_pool a) = length (task_pool b)"
    using m by (rule map_eq_imp_length_eq)
  have "task_pool_used (bookkeeping a) = task_pool_used (bookkeeping b)"
    "current_task (bookkeeping a) = current_task (bookkeeping b)"
    "idle_task (bookkeeping a) = idle_task (bookkeeping b)"
    "next_task_id (bookkeeping a) = next_task_id (bookkeeping b)"
    "scheduler_running (bookkeeping a) = scheduler_running (bookkeeping b)"
    "system_tick_count (bookkeeping a) = system_tick_count (bookkeeping b)"
    "stats (bookkeeping a) = stats (bookkeeping b)"
    using assms by simp_all
  then show "task_pool_used a = task_pool_used b"
    and "current_task a = current_task b"
    and "idle_task a = idle_task b"
    and "next_task_id a = next_task_id b"
    and "scheduler_running a = scheduler_running b"
    and "system_tick_count a = system_tick_count b"
    and "stats a = stats b"
    by (simp_all add: bookkeeping_def)
qed

lemma bookkeeping_task:
  assumes "bookkeeping a = bookkeeping b" and "j < length (task_pool a)"
  shows "unlinked (task_pool a ! j) = unlinked (task_pool b ! j)"
proof -
  have "task_pool (bookkeeping a) = task_pool (bookkeeping b)" using assms(1) by simp
  then have m: "map unlinked (task_pool a) = map unlinked (task_pool b)"
    by (simp add: bookkeeping_def)
  have l: "length (task_pool a) = length (task_pool b)"
    using m by (rule map_eq_imp_length_eq)
  have "map unlinked (task_pool a) ! j = map unlinked (task_pool b) ! j" using m by simp
  then show ?thesis using assms(2) l by simp
qed

lemma unlinked_fields:
  assumes "unlinked x = unlinked y"
  shows "priority x = priority y" and "state x = state y" and "wake_time x = wake_time y"
    and "time_slice_remaining x = time_slice_remaining y"
    and "total_runtime x = total_runtime y" and "last_run_time x = last_run_time y"
    and "task_id x = task_id y" and "name x = name y" and "stack_size x = stack_size y"
proof -
  have "priority (unlinked x) = priority (unlinked y)" "state (unlinked x) = state (unlinked y)"
    "wake_time (unlinked x) = wake_time (unlinked y)"
    "time_slice_remaining (unlinked x) = time_slice_remaining (unlinked y)"
    "total_runtime (unlinked x) = total_runtime (unlinked y)"
    "last_run_time (unlinked x) = last_run_time (unlinked y)"
    "task_id (unlinked x) = task_id (unlinked y)" "name (unlinked x) = name (unlinked y)"
    "stack_size (unlinked x) = stack_size (unlinked y)"
    using assms by simp_all
  then show "priority x = priority y" and "state x = state y" and "wake_time x = wake_time y"
    and "time_slice_remaining x = time_slice_remaining y"
    and "total_runtime x = total_runtime y" and "last_run_time x = last_run_time y"
    and "task_id x = task_id y" and "name x = name y" and "stack_size x = stack_size y"
    by (simp_all add: unlinked_def)
qed

lemmas bookkeeping_fields = unlinked_fields [OF bookkeeping_task]

lemma queues_okD:
  assumes "queues_ok s qs"
  shows "length (task_pool s) = MAX_TASKS" and "length (task_pool_used s) = MAX_TASKS"
    and "length (ready_queues s) = PRIORITY_LEVELS" and "length qs = PRIORITY_LEVELS"
    and "\<And>p. p < PRIORITY_LEVELS \<Longrightarrow> ready_queues s ! p = head_of (qs ! p)"
    and "\<And>p. p < PRIORITY_LEVELS \<Longrightarrow> distinct (qs ! p)"
    and "\<And>p. p < PRIORITY_LEVELS \<Longrightarrow> circ (nexts s) (prevs s) (qs ! p)"
    and "\<And>p t. p < PRIORITY_LEVELS \<Longrightarrow> t \<in> set (qs ! p) \<Longrightarrow> t < MAX_TASKS"
    and "\<And>p t. p < PRIORITY_LEVELS \<Longrightarrow> t \<in> set (qs ! p)
           \<Longrightarrow> unat (priority (task_pool s ! t)) = p"
  using assms by (simp_all add: queues_ok_def)

lemma queues_okI:
  assumes "length (task_pool s) = MAX_TASKS" and "length (task_pool_used s) = MAX_TASKS"
    and "length (ready_queues s) = PRIORITY_LEVELS" and "length qs = PRIORITY_LEVELS"
    and "\<And>p. p < PRIORITY_LEVELS \<Longrightarrow> ready_queues s ! p = head_of (qs ! p)"
    and "\<And>p. p < PRIORITY_LEVELS \<Longrightarrow> distinct (qs ! p)"
    and "\<And>p. p < PRIORITY_LEVELS \<Longrightarrow> circ (nexts s) (prevs s) (qs ! p)"
    and "\<And>p t. p < PRIORITY_LEVELS \<Longrightarrow> t \<in> set (qs ! p) \<Longrightarrow> t < MAX_TASKS"
    and "\<And>p t. p < PRIORITY_LEVELS \<Longrightarrow> t \<in> set (qs ! p)
           \<Longrightarrow> unat (priority (task_pool s ! t)) = p"
  shows "queues_ok s qs"
  using assms by (simp add: queues_ok_def)

text \<open>A change of one queue: what has to be shown for the new state.\<close>

lemma queues_ok_change:
  assumes q: "queues_ok s qs" and p: "p < PRIORITY_LEVELS"
    and bk: "\<And>j. j < MAX_TASKS \<Longrightarrow> priority (task_pool s' ! j) = priority (task_pool s ! j)"
    and len: "length (task_pool s') = MAX_TASKS" "length (task_pool_used s') = MAX_TASKS"
    and rq: "ready_queues s' = (ready_queues s)[p := head_of ys]"
    and frame: "\<And>j. j < MAX_TASKS \<Longrightarrow> unat (priority (task_pool s ! j)) \<noteq> p
                 \<Longrightarrow> nexts s' j = nexts s j \<and> prevs s' j = prevs s j"
    and d: "distinct ys" and c: "circ (nexts s') (prevs s') ys"
    and m: "\<And>t. t \<in> set ys \<Longrightarrow> t < MAX_TASKS \<and> unat (priority (task_pool s ! t)) = p"
  shows "queues_ok s' (qs[p := ys])"
proof (rule queues_okI)
  note D = queues_okD [OF q]
  show "length (task_pool s') = MAX_TASKS" "length (task_pool_used s') = MAX_TASKS"
    by (rule len)+
  show "length (ready_queues s') = PRIORITY_LEVELS" by (simp add: rq D)
  show "length (qs[p := ys]) = PRIORITY_LEVELS" by (simp add: D)
  fix p' assume p': "p' < PRIORITY_LEVELS"
  show "ready_queues s' ! p' = head_of (qs[p := ys] ! p')"
    using p p' D(3,4) D(5) [OF p'] by (simp add: rq nth_list_update)
  show "distinct (qs[p := ys] ! p')"
    using p p' D(4) D(6) [OF p'] d by (simp add: nth_list_update)
  show "circ (nexts s') (prevs s') (qs[p := ys] ! p')"
  proof (cases "p' = p")
    case True
    then show ?thesis using c p D(4) by simp
  next
    case False
    have "circ (nexts s') (prevs s') (qs ! p') = circ (nexts s) (prevs s) (qs ! p')"
    proof (rule circ_cong)
      show "\<forall>j\<in>set (qs ! p'). nexts s' j = nexts s j"
        using frame D(8) [OF p'] D(9) [OF p'] False by blast
      show "\<forall>j\<in>set (qs ! p'). prevs s' j = prevs s j"
        using frame D(8) [OF p'] D(9) [OF p'] False by blast
    qed
    then show ?thesis using False D(7) [OF p'] by simp
  qed
next
  note D = queues_okD [OF q]
  fix p' t assume p': "p' < PRIORITY_LEVELS" and t: "t \<in> set (qs[p := ys] ! p')"
  have *: "t < MAX_TASKS \<and> unat (priority (task_pool s ! t)) = p'"
  proof (cases "p' = p")
    case True
    then show ?thesis using t m p D(4) by simp
  next
    case False
    then show ?thesis using t D(8) [OF p'] D(9) [OF p'] by simp
  qed
  then show "t < MAX_TASKS" by simp
  show "unat (priority (task_pool s' ! t)) = p'" using * bk by simp
qed

lemma head_of_simps [simp]: "head_of [] = None" "head_of (x # xs) = Some x"
  by (simp_all add: head_of_def)

lemma head_of_hd: "xs \<noteq> [] \<Longrightarrow> head_of xs = Some (hd xs)"
  by (cases xs) simp_all

lemma head_of_None: "(head_of xs = None) = (xs = [])"
  by (cases xs) simp_all

lemma queues_ok_add:
  assumes q: "queues_ok s qs" and t: "t < MAX_TASKS"
    and pr: "unat (priority (task_pool s ! t)) = p" and p: "p < PRIORITY_LEVELS"
    and nin: "t \<notin> set (qs ! p)"
  shows "\<exists>s'. add_task_to_ready_queue t s = Some s'
           \<and> queues_ok s' (qs[p := qs ! p @ [t]])
           \<and> bookkeeping s' = bookkeeping (tcb_upd t (\<lambda>x. x\<lparr>state := TASK_READY\<rparr>) s)"
proof -
  note D = queues_okD [OF q]
  let ?xs = "qs ! p"
  let ?b = "tcb_upd t (\<lambda>x. x\<lparr>state := TASK_READY\<rparr>) s"
  have prio_b: "priority (task_pool ?b ! j) = priority (task_pool s ! j)" for j
    by (simp add: tcb_upd_nth)
  have mem: "\<And>x. x \<in> set (?xs @ [t]) \<Longrightarrow> x < MAX_TASKS \<and> unat (priority (task_pool s ! x)) = p"
    using D(8) [OF p] D(9) [OF p] t pr by auto
  have dist: "distinct (?xs @ [t])" using D(6) [OF p] nin by simp
  show ?thesis
  proof (cases "?xs = []")
    case True
    then have "ready_queues s ! p = None" using D(5) [OF p] by simp
    from add_empty [OF t pr p this D(1)] obtain s' where
      run: "add_task_to_ready_queue t s = Some s'"
      and rq: "ready_queues s' = (ready_queues s)[p := Some t]"
      and nx: "nexts s' = (nexts s)(t := Some t)" and pv: "prevs s' = (prevs s)(t := Some t)"
      and bk: "bookkeeping s' = bookkeeping ?b" by blast
    have len: "length (task_pool s') = MAX_TASKS" "length (task_pool_used s') = MAX_TASKS"
      using bookkeeping_globals(1,2) [OF bk] D(1,2) by simp_all
    have "queues_ok s' (qs[p := ?xs @ [t]])"
    proof (rule queues_ok_change [OF q p _ len])
      fix j assume "j < MAX_TASKS"
      then show "priority (task_pool s' ! j) = priority (task_pool s ! j)"
        using bookkeeping_fields(1) [OF bk, of j] len prio_b by simp
    next
      show "ready_queues s' = (ready_queues s)[p := head_of (?xs @ [t])]"
        using True rq by simp
    next
      fix j assume "j < MAX_TASKS" "unat (priority (task_pool s ! j)) \<noteq> p"
      then show "nexts s' j = nexts s j \<and> prevs s' j = prevs s j"
        using pr nx pv by auto
    next
      show "circ (nexts s') (prevs s') (?xs @ [t])"
        using True nx pv by (simp add: circ_single)
    qed (use dist mem in auto)
    with run bk show ?thesis by blast
  next
    case False
    define h l where "h = hd ?xs" and "l = last ?xs"
    have hl: "h \<in> set ?xs" "l \<in> set ?xs" using False by (simp_all add: h_def l_def)
    have rqp: "ready_queues s ! p = Some h"
      using D(5) [OF p] False by (simp add: head_of_hd h_def)
    have pvh: "prev_ptr (task_pool s ! h) = Some l"
      using circ_ends(2) [OF D(7) [OF p] False] by (simp add: prevs_def h_def l_def)
    have neq: "t \<noteq> h" "t \<noteq> l" using hl nin by auto
    from add_nonempty [OF t pr p rqp D(8) [OF p hl(1)] pvh D(8) [OF p hl(2)] D(1) neq]
    obtain s' where
      run: "add_task_to_ready_queue t s = Some s'"
      and rq: "ready_queues s' = ready_queues s"
      and nx: "nexts s' = (nexts s)(t := Some h, l := Some t)"
      and pv: "prevs s' = (prevs s)(t := Some l, h := Some t)"
      and bk: "bookkeeping s' = bookkeeping ?b" by blast
    have len: "length (task_pool s') = MAX_TASKS" "length (task_pool_used s') = MAX_TASKS"
      using bookkeeping_globals(1,2) [OF bk] D(1,2) by simp_all
    have "queues_ok s' (qs[p := ?xs @ [t]])"
    proof (rule queues_ok_change [OF q p _ len])
      fix j assume "j < MAX_TASKS"
      then show "priority (task_pool s' ! j) = priority (task_pool s ! j)"
        using bookkeeping_fields(1) [OF bk, of j] len prio_b by simp
    next
      have "head_of (?xs @ [t]) = Some h" using False by (simp add: head_of_hd h_def)
      then show "ready_queues s' = (ready_queues s)[p := head_of (?xs @ [t])]"
        using rq rqp by (metis list_update_id)
    next
      fix j assume "j < MAX_TASKS" "unat (priority (task_pool s ! j)) \<noteq> p"
      then have "j \<noteq> t" "j \<noteq> h" "j \<noteq> l" using pr D(9) [OF p] hl by auto
      then show "nexts s' j = nexts s j \<and> prevs s' j = prevs s j"
        using nx pv by simp
    next
      show "circ (nexts s') (prevs s') (?xs @ [t])"
        unfolding nx pv h_def l_def
        by (rule circ_snoc [OF D(7) [OF p] D(6) [OF p] False nin])
    qed (use dist mem in auto)
    with run bk show ?thesis by blast
  qed
qed

lemma queues_ok_remove:
  assumes q: "queues_ok s qs" and p: "p < PRIORITY_LEVELS" and tin: "t \<in> set (qs ! p)"
  shows "\<exists>s'. remove_task_from_ready_queue t s = Some s'
           \<and> queues_ok s' (qs[p := remove1 t (qs ! p)])
           \<and> bookkeeping s' = bookkeeping s"
proof -
  note D = queues_okD [OF q]
  let ?xs = "qs ! p"
  have t: "t < MAX_TASKS" and pr: "unat (priority (task_pool s ! t)) = p"
    using D(8) [OF p tin] D(9) [OF p tin] by simp_all
  have ne: "?xs \<noteq> []" using tin by auto
  define h where "h = hd ?xs"
  have rqp: "ready_queues s ! p = Some h"
    using D(5) [OF p] ne by (simp add: head_of_hd h_def)
  have mem: "\<And>x. x \<in> set (remove1 t ?xs) \<Longrightarrow> x < MAX_TASKS \<and> unat (priority (task_pool s ! x)) = p"
    using D(8) [OF p] D(9) [OF p] by (auto dest: notin_set_remove1)
  have dist: "distinct (remove1 t ?xs)" using D(6) [OF p] by simp
  obtain as bs where split: "?xs = as @ t # bs" using tin by (auto dest: split_list)
  have nas: "t \<notin> set as" "t \<notin> set bs" and das: "distinct (as @ bs)"
    using D(6) [OF p] split by auto
  have rem: "remove1 t ?xs = as @ bs" using split nas by (simp add: remove1_append)
  have rot: "circ (nexts s) (prevs s) (t # bs @ as)"
    using D(7) [OF p] split circ_rotate [of "nexts s" "prevs s" as "t # bs"] by simp
  show ?thesis
  proof (cases "as @ bs = []")
    case True
    then have xs: "?xs = [t]" using split by simp
    then have "next_ptr (task_pool s ! t) = Some t"
      using D(7) [OF p] by (simp add: circ_single nexts_def)
    from remove_single [OF t pr p rqp this D(1)] obtain s' where
      run: "remove_task_from_ready_queue t s = Some s'"
      and rq: "ready_queues s' = (ready_queues s)[p := None]"
      and nx: "nexts s' = (nexts s)(t := None)" and pv: "prevs s' = (prevs s)(t := None)"
      and bk: "bookkeeping s' = bookkeeping s" by blast
    have len: "length (task_pool s') = MAX_TASKS" "length (task_pool_used s') = MAX_TASKS"
      using bookkeeping_globals(1,2) [OF bk] D(1,2) by simp_all
    have "queues_ok s' (qs[p := remove1 t ?xs])"
    proof (rule queues_ok_change [OF q p _ len])
      fix j assume "j < MAX_TASKS"
      then show "priority (task_pool s' ! j) = priority (task_pool s ! j)"
        using bookkeeping_fields(1) [OF bk, of j] len by simp
    next
      show "ready_queues s' = (ready_queues s)[p := head_of (remove1 t ?xs)]"
        using xs rq by simp
    next
      fix j assume "j < MAX_TASKS" "unat (priority (task_pool s ! j)) \<noteq> p"
      then show "nexts s' j = nexts s j \<and> prevs s' j = prevs s j"
        using pr nx pv by auto
    next
      show "circ (nexts s') (prevs s') (remove1 t ?xs)" using xs by simp
    qed (use dist mem in auto)
    with run bk show ?thesis by blast
  next
    case False
    define n v where "n = hd (bs @ as)" and "v = last (bs @ as)"
    have ne': "bs @ as \<noteq> []" using False by auto
    have nv: "n \<in> set (bs @ as)" "v \<in> set (bs @ as)"
      unfolding n_def v_def using ne' by (rule hd_in_set, rule last_in_set)
    then have nvx: "n \<in> set ?xs" "v \<in> set ?xs" using split by auto
    have neq: "n \<noteq> t" "v \<noteq> t" using nv nas by auto
    have lnk: "next_ptr (task_pool s ! t) = Some n" "prev_ptr (task_pool s ! t) = Some v"
      using circ_hd_links [OF rot ne'] by (simp_all add: nexts_def prevs_def n_def v_def)
    from remove_multi [OF t pr p rqp lnk(1) neq(1) D(8) [OF p nvx(1)] lnk(2) neq(2)
        D(8) [OF p nvx(2)] D(1)]
    obtain s' where
      run: "remove_task_from_ready_queue t s = Some s'"
      and rq: "ready_queues s' = (if h = t then (ready_queues s)[p := Some n] else ready_queues s)"
      and nx: "nexts s' = (nexts s)(v := Some n, t := None)"
      and pv: "prevs s' = (prevs s)(n := Some v, t := None)"
      and bk: "bookkeeping s' = bookkeeping s" by blast
    have len: "length (task_pool s') = MAX_TASKS" "length (task_pool_used s') = MAX_TASKS"
      using bookkeeping_globals(1,2) [OF bk] D(1,2) by simp_all
    have "queues_ok s' (qs[p := remove1 t ?xs])"
    proof (rule queues_ok_change [OF q p _ len])
      fix j assume "j < MAX_TASKS"
      then show "priority (task_pool s' ! j) = priority (task_pool s ! j)"
        using bookkeeping_fields(1) [OF bk, of j] len by simp
    next
      show "ready_queues s' = (ready_queues s)[p := head_of (remove1 t ?xs)]"
      proof (cases "as = []")
        case True
        then have "h = t" "head_of (remove1 t ?xs) = Some n"
          using split rem ne' by (simp_all add: h_def n_def head_of_hd)
        then show ?thesis using rq by simp
      next
        case False
        then have "h = hd as" "head_of (remove1 t ?xs) = Some (hd as)"
          using split rem by (simp_all add: h_def head_of_hd)
        moreover have "hd as \<noteq> t" using False nas by (auto dest: hd_in_set)
        ultimately show ?thesis
          using rq rqp by (metis list_update_id)
      qed
    next
      fix j assume "j < MAX_TASKS" "unat (priority (task_pool s ! j)) \<noteq> p"
      then have "j \<noteq> t" "j \<noteq> n" "j \<noteq> v" using pr D(9) [OF p] nvx by auto
      then show "nexts s' j = nexts s j \<and> prevs s' j = prevs s j"
        using nx pv by simp
    next
      have "distinct (t # bs @ as)" using das nas by auto
      from circ_remove_hd [OF rot this ne']
      have "circ (nexts s') (prevs s') (bs @ as)"
        unfolding nx pv n_def v_def .
      then show "circ (nexts s') (prevs s') (remove1 t ?xs)"
        unfolding rem by (simp add: circ_rotate [of _ _ as bs])
    qed (use dist mem in auto)
    with run bk show ?thesis by blast
  qed
qed

text \<open>Updates that touch neither the links nor the priorities leave the queues as they are.\<close>

lemma queues_ok_cong:
  assumes "queues_ok s qs" and "ready_queues s' = ready_queues s"
    and "nexts s' = nexts s" and "prevs s' = prevs s"
    and "\<And>j. j < MAX_TASKS \<Longrightarrow> priority (task_pool s' ! j) = priority (task_pool s ! j)"
    and "length (task_pool s') = MAX_TASKS" and "length (task_pool_used s') = MAX_TASKS"
  shows "queues_ok s' qs"
  using assms by (simp add: queues_ok_def)

lemma queues_ok_tcb_upd:
  assumes "queues_ok s qs" and "\<And>x. next_ptr (f x) = next_ptr x"
    and "\<And>x. prev_ptr (f x) = prev_ptr x" and "\<And>x. priority (f x) = priority x"
  shows "queues_ok (tcb_upd c f s) qs"
  using assms(1)
proof (rule queues_ok_cong)
  show "nexts (tcb_upd c f s) = nexts s" "prevs (tcb_upd c f s) = prevs s"
    using assms by (simp_all add: nexts_tcb_upd_same prevs_tcb_upd_same)
  show "priority (task_pool (tcb_upd c f s) ! j) = priority (task_pool s ! j)" for j
    using assms by (simp add: tcb_upd_nth)
qed (use queues_okD [OF assms(1)] in simp_all)

lemma first_nonempty_None:
  "first_nonempty qs = None \<longleftrightarrow> (\<forall>p<PRIORITY_LEVELS. qs ! p = [])"
  by (auto simp: first_nonempty_def find_None_iff)

lemma first_nonempty_Some:
  "first_nonempty qs = Some p \<longleftrightarrow>
     p < PRIORITY_LEVELS \<and> qs ! p \<noteq> [] \<and> (\<forall>q<p. qs ! q = [])"
  by (auto simp: first_nonempty_def find_Some_iff)

lemma queues_ok_next_none:
  assumes q: "queues_ok s qs" and f: "first_nonempty qs = None"
  shows "scheduler_get_next_task s = Some (idle_task s, s)"
    and "get_highest_priority_ready_task s = None"
proof -
  have "\<forall>p<PRIORITY_LEVELS. ready_queues s ! p = None"
    using f queues_okD(5) [OF q] by (simp add: first_nonempty_None)
  then show "scheduler_get_next_task s = Some (idle_task s, s)"
    and "get_highest_priority_ready_task s = None"
    by (simp_all add: get_next_none get_highest_none)
qed

lemma queues_ok_next_some:
  assumes q: "queues_ok s qs" and f: "first_nonempty qs = Some p"
  shows "scheduler_get_next_task s = Some (Some (hd (qs ! p)), advance p qs s)"
    and "queues_ok (advance p qs s) (qs[p := rotate1 (qs ! p)])"
    and "get_highest_priority_ready_task s = Some (hd (qs ! p))"
proof -
  note D = queues_okD [OF q]
  let ?xs = "qs ! p"
  have p: "p < PRIORITY_LEVELS" and ne: "?xs \<noteq> []" and low: "\<forall>q<p. qs ! q = []"
    using f by (simp_all add: first_nonempty_Some)
  define h where "h = hd ?xs"
  have hin: "h \<in> set ?xs" using ne by (simp add: h_def)
  have h: "h < MAX_TASKS" using D(8) [OF p hin] .
  have rqp: "ready_queues s ! p = Some h"
    using D(5) [OF p] ne by (simp add: head_of_hd h_def)
  have lowq: "\<forall>q<p. ready_queues s ! q = None"
    using low D(5) p by simp
  show "get_highest_priority_ready_task s = Some (hd (qs ! p))"
    using get_highest_first [OF p lowq rqp] by (simp add: h_def)
  have nxt: "next_ptr (task_pool s ! h) = head_of (rotate1 ?xs)"
  proof (cases "tl ?xs = []")
    case True
    then have xs: "?xs = [h]" using ne by (cases ?xs) (simp_all add: h_def)
    then show ?thesis using D(7) [OF p] by (simp add: circ_single nexts_def)
  next
    case False
    have xs: "?xs = h # tl ?xs" using ne by (simp add: h_def)
    then have "circ (nexts s) (prevs s) (h # tl ?xs)" using D(7) [OF p] by simp
    from circ_hd_links(1) [OF this False] have "nexts s h = Some (hd (tl ?xs))" .
    moreover have "rotate1 ?xs = tl ?xs @ [h]" using xs by (metis rotate1.simps(2))
    ultimately show ?thesis using False by (simp add: nexts_def head_of_hd)
  qed
  show "scheduler_get_next_task s = Some (Some (hd (qs ! p)), advance p qs s)"
    using get_next_first [OF p lowq rqp h] nxt unfolding h_def advance_def by simp
  show "queues_ok (advance p qs s) (qs[p := rotate1 ?xs])"
  proof (rule queues_ok_change [OF q p])
    show "ready_queues (advance p qs s) = (ready_queues s)[p := head_of (rotate1 ?xs)]"
      by (simp add: advance_def)
    have "rotate1 ?xs = tl ?xs @ [hd ?xs]" using ne by (cases ?xs) simp_all
    moreover have "circ (nexts s) (prevs s) ([hd ?xs] @ tl ?xs)" using D(7) [OF p] ne by simp
    ultimately show "circ (nexts (advance p qs s)) (prevs (advance p qs s)) (rotate1 ?xs)"
      using circ_rotate [of "nexts s" "prevs s" "[hd ?xs]" "tl ?xs"] by (simp add: advance_def)
    show "distinct (rotate1 ?xs)" using D(6) [OF p] by simp
  qed (use D p in \<open>auto simp: advance_def nexts_def prevs_def\<close>)
qed

section \<open>The context switch\<close>

lemma bookkeeping_commute:
  assumes "\<And>x. unlinked (f x) = f (unlinked x)"
  shows "bookkeeping (tcb_upd h f a) = tcb_upd h f (bookkeeping a)"
proof (cases "h < length (task_pool a)")
  case True
  then show ?thesis
    using assms by (simp add: bookkeeping_def tcb_upd_def map_update)
next
  case False
  then show ?thesis
    by (simp add: bookkeeping_def tcb_upd_def list_update_beyond not_less)
qed

lemma bookkeeping_cong:
  assumes "bookkeeping a = bookkeeping b" and "\<And>x. unlinked (f x) = f (unlinked x)"
  shows "bookkeeping (tcb_upd h f a) = bookkeeping (tcb_upd h f b)"
  using assms by (simp add: bookkeeping_commute)

lemma bookkeeping_current:
  "bookkeeping a = bookkeeping b \<Longrightarrow>
     bookkeeping (a\<lparr>current_task := x\<rparr>) = bookkeeping (b\<lparr>current_task := x\<rparr>)"
  by (simp add: bookkeeping_def) (metis kernel.update_convs(2) kernel.surjective kernel.update_convs(1) kernel.update_convs(8))

lemma switch_in_cong:
  assumes "bookkeeping a = bookkeeping b"
  shows "bookkeeping (switch_in n a) = bookkeeping (switch_in n b)"
  unfolding switch_in_def
  by (rule bookkeeping_cong [OF bookkeeping_current [OF assms]]) (simp add: unlinked_def)

lemma context_switch_same [simp]: "context_switch x x s = Some s"
  by (simp add: context_switch_def)

lemma switch_out_queue:
  assumes q: "queues_ok s qs" and c: "c < MAX_TASKS"
    and run: "state (task_pool s ! c) = TASK_RUNNING \<Longrightarrow>
                unat (priority (task_pool s ! c)) < PRIORITY_LEVELS
                \<and> c \<notin> set (qs ! unat (priority (task_pool s ! c)))"
  defines "s1 \<equiv> count_switch s"
  defines "s2 \<equiv> tcb_upd c (\<lambda>x. x\<lparr>last_run_time := system_tick_count s1\<rparr>) s1"
  defines "s3 \<equiv> (if state (task_pool s2 ! c) = TASK_RUNNING
                  then tcb_upd c (\<lambda>x. x\<lparr>total_runtime := total_runtime x + 1\<rparr>) s2 else s2)"
  shows "\<exists>s4. (if state (task_pool s3 ! c) = TASK_RUNNING
               then add_task_to_ready_queue c (tcb_upd c (\<lambda>x. x\<lparr>state := TASK_READY\<rparr>) s3)
               else Some s3) = Some s4
           \<and> queues_ok s4 (requeue (Some c) s qs)
           \<and> bookkeeping s4 = bookkeeping (switch_out c (count_switch s))"
proof -
  note D = queues_okD [OF q]
  have q1: "queues_ok s1 qs"
    using q by (rule queues_ok_cong)
      (simp_all add: s1_def count_switch_def fun_eq_iff nexts_def prevs_def D)
  have q2: "queues_ok s2 qs"
    unfolding s2_def by (rule queues_ok_tcb_upd [OF q1]) simp_all
  have q3: "queues_ok s3 qs"
    unfolding s3_def using q2 by (auto intro: queues_ok_tcb_upd)
  have st: "state (task_pool s3 ! c) = state (task_pool s ! c)"
    "priority (task_pool s3 ! c) = priority (task_pool s ! c)"
    by (simp_all add: s3_def s2_def s1_def tcb_upd_nth count_switch_def)
  show ?thesis
  proof (cases "state (task_pool s ! c) = TASK_RUNNING")
    case False
    then have "s3 = switch_out c (count_switch s)"
      by (simp add: s3_def s2_def s1_def switch_out_def Let_def tcb_upd_nth count_switch_def)
    then show ?thesis using False q3 st by (simp add: requeue_def)
  next
    case True
    let ?p = "unat (priority (task_pool s ! c))"
    let ?s = "tcb_upd c (\<lambda>x. x\<lparr>state := TASK_READY\<rparr>) s3"
    have q3': "queues_ok ?s qs" by (rule queues_ok_tcb_upd [OF q3]) simp_all
    have pr: "unat (priority (task_pool ?s ! c)) = ?p"
      using st by (simp add: tcb_upd_nth)
    from queues_ok_add [OF q3' c pr] run [OF True]
    obtain s4 where a: "add_task_to_ready_queue c ?s = Some s4"
      and q4: "queues_ok s4 (qs[?p := qs ! ?p @ [c]])"
      and bk: "bookkeeping s4 = bookkeeping (tcb_upd c (\<lambda>x. x\<lparr>state := TASK_READY\<rparr>) ?s)"
      by blast
    have "tcb_upd c (\<lambda>x. x\<lparr>state := TASK_READY\<rparr>) ?s = ?s"
      using c D(1) queues_okD(1) [OF q3] by (intro tcb_upd_id) (simp add: tcb_upd_nth)
    moreover have "?s = switch_out c (count_switch s)"
      using True
      by (simp add: s3_def s2_def s1_def switch_out_def Let_def tcb_upd_nth count_switch_def)
    ultimately have "tcb_upd c (\<lambda>x. x\<lparr>state := TASK_READY\<rparr>) ?s = switch_out c (count_switch s)"
      by simp
    then show ?thesis using True a q4 bk st by (simp add: requeue_def)
  qed
qed

lemma requeue_mono:
  assumes "length qs = PRIORITY_LEVELS" and "p < PRIORITY_LEVELS" and "x \<in> set (qs ! p)"
  shows "x \<in> set (requeue cur s qs ! p)"
  using assms by (auto simp: requeue_def nth_list_update_if split: option.splits)

lemma context_switch_queues:
  assumes q: "queues_ok s qs" and p: "p < PRIORITY_LEVELS" and hin: "h \<in> set (qs ! p)"
    and cur: "\<And>c. cur = Some c \<Longrightarrow> c < MAX_TASKS \<and> c \<noteq> h \<and>
               (state (task_pool s ! c) = TASK_RUNNING \<longrightarrow>
                  unat (priority (task_pool s ! c)) < PRIORITY_LEVELS
                  \<and> c \<notin> set (qs ! unat (priority (task_pool s ! c))))"
  shows "\<exists>s'. context_switch cur (Some h) s = Some s'
           \<and> queues_ok s' (switch_queues cur h s qs)
           \<and> bookkeeping s' = bookkeeping (switch_records cur h s)"
proof -
  note D = queues_okD [OF q]
  have h: "h < MAX_TASKS" and hp: "unat (priority (task_pool s ! h)) = p"
    using D(8) [OF p hin] D(9) [OF p hin] by simp_all
  let ?q1 = "requeue cur s qs"
  let ?f = "\<lambda>x. x\<lparr>state := TASK_RUNNING, time_slice_remaining := of_nat TIME_SLICE_MS\<rparr>"
  have fin: "\<exists>s'. remove_task_from_ready_queue h (tcb_upd h ?f (s4\<lparr>current_task := Some h\<rparr>)) = Some s'
           \<and> queues_ok s' (switch_queues cur h s qs)
           \<and> bookkeeping s' = bookkeeping (switch_in h s4)"
    if q4: "queues_ok s4 ?q1" for s4
  proof -
    note D4 = queues_okD [OF q4]
    have "queues_ok (s4\<lparr>current_task := Some h\<rparr>) ?q1"
      using q4 by (rule queues_ok_cong) (simp_all add: fun_eq_iff nexts_def prevs_def D4)
    then have q5: "queues_ok (tcb_upd h ?f (s4\<lparr>current_task := Some h\<rparr>)) ?q1"
      by (rule queues_ok_tcb_upd) simp_all
    have "h \<in> set (?q1 ! p)" using D(4) p hin by (rule requeue_mono)
    from queues_ok_remove [OF q5 p this] show ?thesis
      by (simp add: switch_queues_def hp switch_in_def Let_def)
  qed
  show ?thesis
  proof (cases cur)
    case None
    have "queues_ok (count_switch s) qs"
      using q by (rule queues_ok_cong)
        (simp_all add: count_switch_def fun_eq_iff nexts_def prevs_def D)
    then have "queues_ok (count_switch s) ?q1" using None by (simp add: requeue_def)
    from fin [OF this] show ?thesis
      using None h by (simp add: context_switch_def Let_def switch_records_def count_switch_def)
  next
    case (Some c)
    have c: "c < MAX_TASKS" "c \<noteq> h" using cur [OF Some] by simp_all
    from switch_out_queue [OF q c(1)] cur [OF Some]
    obtain s4 where out: "(if state (task_pool
            (if state (task_pool (tcb_upd c (\<lambda>x. x\<lparr>last_run_time := system_tick_count (count_switch s)\<rparr>) (count_switch s)) ! c) = TASK_RUNNING
             then tcb_upd c (\<lambda>x. x\<lparr>total_runtime := total_runtime x + 1\<rparr>)
                    (tcb_upd c (\<lambda>x. x\<lparr>last_run_time := system_tick_count (count_switch s)\<rparr>) (count_switch s))
             else tcb_upd c (\<lambda>x. x\<lparr>last_run_time := system_tick_count (count_switch s)\<rparr>) (count_switch s)) ! c) = TASK_RUNNING
         then add_task_to_ready_queue c (tcb_upd c (\<lambda>x. x\<lparr>state := TASK_READY\<rparr>)
            (if state (task_pool (tcb_upd c (\<lambda>x. x\<lparr>last_run_time := system_tick_count (count_switch s)\<rparr>) (count_switch s)) ! c) = TASK_RUNNING
             then tcb_upd c (\<lambda>x. x\<lparr>total_runtime := total_runtime x + 1\<rparr>)
                    (tcb_upd c (\<lambda>x. x\<lparr>last_run_time := system_tick_count (count_switch s)\<rparr>) (count_switch s))
             else tcb_upd c (\<lambda>x. x\<lparr>last_run_time := system_tick_count (count_switch s)\<rparr>) (count_switch s)))
         else Some (if state (task_pool (tcb_upd c (\<lambda>x. x\<lparr>last_run_time := system_tick_count (count_switch s)\<rparr>) (count_switch s)) ! c) = TASK_RUNNING
             then tcb_upd c (\<lambda>x. x\<lparr>total_runtime := total_runtime x + 1\<rparr>)
                    (tcb_upd c (\<lambda>x. x\<lparr>last_run_time := system_tick_count (count_switch s)\<rparr>) (count_switch s))
             else tcb_upd c (\<lambda>x. x\<lparr>last_run_time := system_tick_count (count_switch s)\<rparr>) (count_switch s))) = Some s4"
      and q4: "queues_ok s4 (requeue (Some c) s qs)"
      and bk4: "bookkeeping s4 = bookkeeping (switch_out c (count_switch s))"
      by blast
    from fin [of s4] q4 Some obtain s' where
      rem: "remove_task_from_ready_queue h (tcb_upd h ?f (s4\<lparr>current_task := Some h\<rparr>)) = Some s'"
      and q': "queues_ok s' (switch_queues cur h s qs)"
      and bk': "bookkeeping s' = bookkeeping (switch_in h s4)" by auto
    have "context_switch cur (Some h) s = Some s'"
      using Some c h out rem
      by (simp add: context_switch_def Let_def count_switch_def [symmetric])
    moreover have "bookkeeping s' = bookkeeping (switch_records cur h s)"
      using bk' switch_in_cong [OF bk4] Some by (simp add: switch_records_def)
    ultimately show ?thesis using q' by blast
  qed
qed

section \<open>The scheduler invariant\<close>

lemma tasks_ok_pre_switch: "tasks_ok s qs \<Longrightarrow> pre_switch s qs"
  unfolding tasks_ok_def pre_switch_def by auto

lemma pre_switchD:
  assumes "pre_switch s qs"
  shows "\<And>p t. p < PRIORITY_LEVELS \<Longrightarrow> t \<in> set (qs ! p) \<Longrightarrow> task_pool_used s ! t"
    and "\<And>p t. p < PRIORITY_LEVELS \<Longrightarrow> t \<in> set (qs ! p) \<Longrightarrow> state (task_pool s ! t) = TASK_READY"
    and "\<And>t. t < MAX_TASKS \<Longrightarrow> task_pool_used s ! t
           \<Longrightarrow> unat (priority (task_pool s ! t)) < PRIORITY_LEVELS"
    and "\<And>t. t < MAX_TASKS \<Longrightarrow> task_pool_used s ! t \<Longrightarrow> state (task_pool s ! t) = TASK_READY
           \<Longrightarrow> t \<in> set (qs ! unat (priority (task_pool s ! t)))"
    and "\<And>t. t < MAX_TASKS \<Longrightarrow> task_pool_used s ! t \<Longrightarrow> state (task_pool s ! t) = TASK_RUNNING
           \<Longrightarrow> current_task s = Some t"
    and "\<And>c. current_task s = Some c \<Longrightarrow> c < MAX_TASKS"
    and "\<And>c. current_task s = Some c \<Longrightarrow> task_pool_used s ! c"
    and "\<And>c. current_task s = Some c \<Longrightarrow> state (task_pool s ! c) \<noteq> TASK_READY"
  using assms unfolding pre_switch_def by blast+

lemma tasks_okI:
  assumes "\<And>p t. p < PRIORITY_LEVELS \<Longrightarrow> t \<in> set (qs ! p) \<Longrightarrow> task_pool_used s ! t"
    and "\<And>p t. p < PRIORITY_LEVELS \<Longrightarrow> t \<in> set (qs ! p) \<Longrightarrow> state (task_pool s ! t) = TASK_READY"
    and "\<And>t. t < MAX_TASKS \<Longrightarrow> task_pool_used s ! t
           \<Longrightarrow> unat (priority (task_pool s ! t)) < PRIORITY_LEVELS"
    and "\<And>t. t < MAX_TASKS \<Longrightarrow> task_pool_used s ! t \<Longrightarrow> state (task_pool s ! t) = TASK_READY
           \<Longrightarrow> t \<in> set (qs ! unat (priority (task_pool s ! t)))"
    and "\<And>t. t < MAX_TASKS \<Longrightarrow> task_pool_used s ! t
           \<Longrightarrow> (state (task_pool s ! t) = TASK_RUNNING) = (current_task s = Some t)"
    and "\<And>c. current_task s = Some c \<Longrightarrow> c < MAX_TASKS \<and> task_pool_used s ! c"
  shows "tasks_ok s qs"
  using assms unfolding tasks_ok_def by blast

lemma tasks_okD:
  assumes "tasks_ok s qs"
  shows "\<And>p t. p < PRIORITY_LEVELS \<Longrightarrow> t \<in> set (qs ! p) \<Longrightarrow> task_pool_used s ! t"
    and "\<And>p t. p < PRIORITY_LEVELS \<Longrightarrow> t \<in> set (qs ! p) \<Longrightarrow> state (task_pool s ! t) = TASK_READY"
    and "\<And>t. t < MAX_TASKS \<Longrightarrow> task_pool_used s ! t
           \<Longrightarrow> unat (priority (task_pool s ! t)) < PRIORITY_LEVELS"
    and "\<And>t. t < MAX_TASKS \<Longrightarrow> task_pool_used s ! t \<Longrightarrow> state (task_pool s ! t) = TASK_READY
           \<Longrightarrow> t \<in> set (qs ! unat (priority (task_pool s ! t)))"
    and "\<And>t. t < MAX_TASKS \<Longrightarrow> task_pool_used s ! t
           \<Longrightarrow> (state (task_pool s ! t) = TASK_RUNNING) = (current_task s = Some t)"
    and "\<And>c. current_task s = Some c \<Longrightarrow> c < MAX_TASKS"
    and "\<And>c. current_task s = Some c \<Longrightarrow> task_pool_used s ! c"
  using assms unfolding tasks_ok_def by blast+

lemma switch_records_fields:
  assumes "length (task_pool s) = MAX_TASKS" and "h < MAX_TASKS"
    and "\<And>c. cur = Some c \<Longrightarrow> c < MAX_TASKS \<and> c \<noteq> h"
  shows "current_task (switch_records cur h s) = Some h"
    and "task_pool_used (switch_records cur h s) = task_pool_used s"
    and "idle_task (switch_records cur h s) = idle_task s"
    and "length (task_pool (switch_records cur h s)) = MAX_TASKS"
    and "priority (task_pool (switch_records cur h s) ! j) = priority (task_pool s ! j)"
    and "state (task_pool (switch_records cur h s) ! j) =
           (if j = h then TASK_RUNNING
            else if cur = Some j \<and> state (task_pool s ! j) = TASK_RUNNING then TASK_READY
            else state (task_pool s ! j))"
  using assms
  by (cases cur;
      simp add: switch_records_def switch_in_def switch_out_def count_switch_def Let_def
        tcb_upd_nth)+

lemma advance_simps [simp]:
  "task_pool (advance p qs s) = task_pool s"
  "task_pool_used (advance p qs s) = task_pool_used s"
  "current_task (advance p qs s) = current_task s"
  "idle_task (advance p qs s) = idle_task s"
  "scheduler_running (advance p qs s) = scheduler_running s"
  "system_tick_count (advance p qs s) = system_tick_count s"
  "stats (advance p qs s) = stats s"
  "next_task_id (advance p qs s) = next_task_id s"
  "bookkeeping (advance p qs s) = bookkeeping s"
  by (simp_all add: advance_def)

lemma switch_records_advance:
  "bookkeeping (switch_records cur h (advance p qs s)) = bookkeeping (switch_records cur h s)"
  by (cases cur)
    (simp_all add: switch_records_def switch_in_def switch_out_def count_switch_def Let_def
      tcb_upd_def advance_def bookkeeping_def)

lemma switch_queues_advance [simp]:
  "switch_queues cur h (advance p qs s) qs' = switch_queues cur h s qs'"
  by (cases cur) (simp_all add: switch_queues_def requeue_def)

lemma requeue_nth:
  assumes "length qs = PRIORITY_LEVELS" and "p < PRIORITY_LEVELS"
  shows "requeue cur s qs ! p =
           (case cur of
              None \<Rightarrow> qs ! p
            | Some c \<Rightarrow>
                if state (task_pool s ! c) = TASK_RUNNING \<and> unat (priority (task_pool s ! c)) = p
                then qs ! p @ [c] else qs ! p)"
  using assms by (auto simp: requeue_def nth_list_update_if split: option.splits)

lemma requeue_length [simp]: "length (requeue cur s qs) = length qs"
  by (simp add: requeue_def split: option.splits)

lemma switch_queues_nth:
  assumes "length qs = PRIORITY_LEVELS" and "p < PRIORITY_LEVELS"
  shows "switch_queues cur h s qs ! p =
           (if unat (priority (task_pool s ! h)) = p
            then remove1 h (requeue cur s qs ! p) else requeue cur s qs ! p)"
  using assms by (auto simp: switch_queues_def Let_def nth_list_update_if)

text \<open>A switch to the head of the first non-empty queue.\<close>

lemma dispatch_ok:
  assumes q: "queues_ok s qs" and ps: "pre_switch s qs" and f: "first_nonempty qs = Some p"
  defines "h \<equiv> hd (qs ! p)"
  defines "qs' \<equiv> switch_queues (current_task s) h s (qs[p := rotate1 (qs ! p)])"
  shows "\<exists>s'. reschedule s = Some s' \<and> queues_ok s' qs' \<and> tasks_ok s' qs'
           \<and> bookkeeping s' = bookkeeping (switch_records (current_task s) h s)"
proof -
  note D = queues_okD [OF q] and P = pre_switchD [OF ps]
  let ?rot = "qs[p := rotate1 (qs ! p)]"
  let ?s1 = "advance p qs s"
  let ?cur = "current_task s"
  have p: "p < PRIORITY_LEVELS" and ne: "qs ! p \<noteq> []"
    using f by (simp_all add: first_nonempty_Some)
  have hin: "h \<in> set (qs ! p)" using ne by (simp add: h_def)
  have h: "h < MAX_TASKS" "task_pool_used s ! h" "state (task_pool s ! h) = TASK_READY"
    "unat (priority (task_pool s ! h)) = p"
    using D(8) [OF p hin] P(1) [OF p hin] P(2) [OF p hin] D(9) [OF p hin] by simp_all
  note N = queues_ok_next_some [OF q f]
  have sets: "\<And>p'. p' < PRIORITY_LEVELS \<Longrightarrow> set (?rot ! p') = set (qs ! p')"
    using D(4) by (simp add: nth_list_update_if)
  have hin': "h \<in> set (?rot ! p)" using hin sets [OF p] by simp
  have cur: "c < MAX_TASKS \<and> c \<noteq> h \<and>
        (state (task_pool ?s1 ! c) = TASK_RUNNING \<longrightarrow>
           unat (priority (task_pool ?s1 ! c)) < PRIORITY_LEVELS
           \<and> c \<notin> set (?rot ! unat (priority (task_pool ?s1 ! c))))"
    if "current_task ?s1 = Some c" for c
  proof -
    have c: "?cur = Some c" using that by simp
    have "c \<noteq> h" using P(8) [OF c] h(3) by auto
    moreover have "unat (priority (task_pool s ! c)) < PRIORITY_LEVELS"
      using P(3) [OF P(6) [OF c] P(7) [OF c]] .
    moreover from this have "c \<notin> set (?rot ! unat (priority (task_pool s ! c)))"
      using P(2) [of "unat (priority (task_pool s ! c))" c] P(8) [OF c] sets by auto
    ultimately show ?thesis using P(6) [OF c] by simp
  qed
  from context_switch_queues [OF N(2) p hin' cur]
  obtain s' where sw: "context_switch (current_task ?s1) (Some h) ?s1 = Some s'"
    and q': "queues_ok s' (switch_queues (current_task ?s1) h ?s1 ?rot)"
    and bk: "bookkeeping s' = bookkeeping (switch_records (current_task ?s1) h ?s1)"
    by blast
  have run: "reschedule s = Some s'"
    using N(1) sw by (simp add: reschedule_def h_def)
  have q'': "queues_ok s' qs'" using q' by (simp add: qs'_def)
  have bk': "bookkeeping s' = bookkeeping (switch_records ?cur h s)"
    using bk by (simp add: switch_records_advance)
  have curc: "\<And>c. ?cur = Some c \<Longrightarrow> c < MAX_TASKS \<and> c \<noteq> h"
    using cur by simp
  note F = switch_records_fields [OF D(1) h(1) curc]
  have len': "length (task_pool s') = MAX_TASKS"
    using bookkeeping_globals(1) [OF bk'] F(4) by simp
  have used': "task_pool_used s' = task_pool_used s"
    and cur': "current_task s' = Some h"
    using bookkeeping_globals(2,3) [OF bk'] F(1,2) by simp_all
  have pr': "\<And>j. j < MAX_TASKS \<Longrightarrow> priority (task_pool s' ! j) = priority (task_pool s ! j)"
    using bookkeeping_fields(1) [OF bk'] len' F(5) by simp
  have st': "\<And>j. j < MAX_TASKS \<Longrightarrow> state (task_pool s' ! j) =
           (if j = h then TASK_RUNNING
            else if ?cur = Some j \<and> state (task_pool s ! j) = TASK_RUNNING then TASK_READY
            else state (task_pool s ! j))"
    using bookkeeping_fields(2) [OF bk'] len' F(6) by simp
  have lrot: "length ?rot = PRIORITY_LEVELS" using D(4) by simp
  have mem': "t \<in> set (qs' ! p') \<longleftrightarrow>
      t \<noteq> h \<and> (t \<in> set (qs ! p') \<or>
        (?cur = Some t \<and> state (task_pool s ! t) = TASK_RUNNING
           \<and> unat (priority (task_pool s ! t)) = p'))"
    if p': "p' < PRIORITY_LEVELS" for t p'
  proof -
    have dq: "distinct (qs' ! p')" using queues_okD(6) [OF q'' p'] .
    have nh: "h \<notin> set (qs ! p')" if "p' \<noteq> p"
      using D(9) [OF p' ] h(4) that by auto
    show ?thesis
    proof (cases "p' = p")
      case True
      have "distinct (requeue ?cur s ?rot ! p)"
        using D(6) [OF p] curc P(2) [OF p] P(8)
        by (auto simp: requeue_nth [OF lrot p] nth_list_update_if D(4) p split: option.splits)
      then have "set (qs' ! p) = set (requeue ?cur s ?rot ! p) - {h}"
        by (simp add: qs'_def switch_queues_nth [OF lrot p] h(4))
      then show ?thesis
        using True sets [OF p]
        by (auto simp: requeue_nth [OF lrot p] split: option.splits)
    next
      case False
      then have "qs' ! p' = requeue ?cur s ?rot ! p'"
        by (simp add: qs'_def switch_queues_nth [OF lrot p'] h(4))
      then show ?thesis
        using False sets [OF p'] nh curc
        by (auto simp: requeue_nth [OF lrot p'] split: option.splits)
    qed
  qed
  have "tasks_ok s' qs'"
  proof (rule tasks_okI)
    fix p' t assume p': "p' < PRIORITY_LEVELS" and t: "t \<in> set (qs' ! p')"
    have tl: "t < MAX_TASKS" using queues_okD(8) [OF q'' p' t] .
    from t have m: "t \<noteq> h" "t \<in> set (qs ! p') \<or> (?cur = Some t \<and> state (task_pool s ! t) = TASK_RUNNING)"
      using mem' [OF p'] by auto
    show "task_pool_used s' ! t"
      using m P(1) [OF p'] P(7) by (auto simp: used')
    show "state (task_pool s' ! t) = TASK_READY"
      using m P(2) [OF p'] by (auto simp: st' [OF tl])
  next
    fix t assume t: "t < MAX_TASKS" and u: "task_pool_used s' ! t"
    have u0: "task_pool_used s ! t" using u by (simp add: used')
    show "unat (priority (task_pool s' ! t)) < PRIORITY_LEVELS"
      using P(3) [OF t u0] by (simp add: pr' [OF t])
    show "(state (task_pool s' ! t) = TASK_RUNNING) = (current_task s' = Some t)"
      using P(5) [OF t u0] by (auto simp: st' [OF t] cur')
    assume r: "state (task_pool s' ! t) = TASK_READY"
    have pt: "unat (priority (task_pool s ! t)) < PRIORITY_LEVELS" using P(3) [OF t u0] .
    have "t \<noteq> h" using r by (auto simp: st' [OF t])
    moreover have "t \<in> set (qs ! unat (priority (task_pool s ! t)))
        \<or> (?cur = Some t \<and> state (task_pool s ! t) = TASK_RUNNING)"
      using r P(4) [OF t u0] by (auto simp: st' [OF t] split: if_splits)
    ultimately show "t \<in> set (qs' ! unat (priority (task_pool s' ! t)))"
      using mem' [OF pt] by (auto simp: pr' [OF t])
  next
    fix c assume "current_task s' = Some c"
    then show "c < MAX_TASKS \<and> task_pool_used s' ! c"
      using h by (simp add: cur' used')
  qed
  with run q'' bk' show ?thesis by blast
qed

lemma idle_ok_switch:
  assumes i: "idle_ok s" and bk: "bookkeeping s' = bookkeeping (switch_records cur h s)"
    and len: "length (task_pool s) = MAX_TASKS" and h: "h < MAX_TASKS"
    and cur: "\<And>c. cur = Some c \<Longrightarrow> c < MAX_TASKS \<and> c \<noteq> h"
  shows "idle_ok s'"
proof -
  note F = switch_records_fields [OF len h cur]
  obtain i where id: "idle_task s = Some i" and il: "i < MAX_TASKS"
    and iu: "task_pool_used s ! i"
    and ist: "state (task_pool s ! i) = TASK_READY \<or> state (task_pool s ! i) = TASK_RUNNING"
    using i by (auto simp: idle_ok_def split: option.splits)
  have len': "length (task_pool s') = MAX_TASKS"
    using bookkeeping_globals(1) [OF bk] F(4) by simp
  have "idle_task s' = Some i" "task_pool_used s' = task_pool_used s"
    using bookkeeping_globals(2,4) [OF bk] F(2,3) id by simp_all
  moreover have "state (task_pool s' ! i) =
           (if i = h then TASK_RUNNING
            else if cur = Some i \<and> state (task_pool s ! i) = TASK_RUNNING then TASK_READY
            else state (task_pool s ! i))"
    using bookkeeping_fields(2) [OF bk, of i] len' il F(6) by simp
  ultimately show ?thesis using il iu ist by (auto simp: idle_ok_def)
qed

section \<open>The wake sweep\<close>

lemma wake_due_cong:
  assumes "bookkeeping a = bookkeeping b" and "i < length (task_pool a)"
  shows "wake_due a i = wake_due b i"
  using bookkeeping_globals(2,7) [OF assms(1)] bookkeeping_fields(2,3) [OF assms]
  by (simp add: wake_due_def)

lemma wake_records_cong:
  assumes "bookkeeping a = bookkeeping b" and "i < length (task_pool a)"
  shows "bookkeeping (wake_records i a) = bookkeeping (wake_records i b)"
proof -
  have "bookkeeping (tcb_upd i (\<lambda>x. x\<lparr>state := TASK_READY\<rparr>) (tcb_upd i (\<lambda>x. x\<lparr>wake_time := 0\<rparr>) a))
      = bookkeeping (tcb_upd i (\<lambda>x. x\<lparr>state := TASK_READY\<rparr>) (tcb_upd i (\<lambda>x. x\<lparr>wake_time := 0\<rparr>) b))"
    using assms(1) by (simp add: bookkeeping_commute unlinked_def)
  then show ?thesis
    using wake_due_cong [OF assms] assms(1) by (simp add: wake_records_def)
qed

lemma wake_records_length [simp]:
  "length (task_pool (wake_records i s)) = length (task_pool s)"
  by (simp add: wake_records_def)

lemma fold_wake_length [simp]:
  "length (task_pool (fold wake_records is s)) = length (task_pool s)"
  by (induction "is" arbitrary: s) simp_all

lemma fold_wake_cong:
  assumes "bookkeeping a = bookkeeping b" and "\<forall>i\<in>set is. i < length (task_pool a)"
  shows "bookkeeping (fold wake_records is a) = bookkeeping (fold wake_records is b)"
  using assms
proof (induction "is" arbitrary: a b)
  case Nil
  then show ?case by simp
next
  case (Cons i rest)
  have "bookkeeping (wake_records i a) = bookkeeping (wake_records i b)"
    using Cons.prems by (intro wake_records_cong) simp_all
  then show ?case using Cons.prems by (simp add: Cons.IH)
qed

text \<open>The sweep, task by task: a due task becomes ready, every other record is kept.\<close>

lemma wake_records_globals [simp]:
  "task_pool_used (wake_records i s) = task_pool_used s"
  "current_task (wake_records i s) = current_task s"
  "idle_task (wake_records i s) = idle_task s"
  "system_tick_count (wake_records i s) = system_tick_count s"
  "scheduler_running (wake_records i s) = scheduler_running s"
  "stats (wake_records i s) = stats s"
  "next_task_id (wake_records i s) = next_task_id s"
  "ready_queues (wake_records i s) = ready_queues s"
  by (simp_all add: wake_records_def)

lemma fold_wake_globals [simp]:
  "task_pool_used (fold wake_records is s) = task_pool_used s"
  "current_task (fold wake_records is s) = current_task s"
  "idle_task (fold wake_records is s) = idle_task s"
  "system_tick_count (fold wake_records is s) = system_tick_count s"
  "scheduler_running (fold wake_records is s) = scheduler_running s"
  "stats (fold wake_records is s) = stats s"
  "next_task_id (fold wake_records is s) = next_task_id s"
  "ready_queues (fold wake_records is s) = ready_queues s"
  by (induction "is" arbitrary: s) simp_all

lemma wake_records_nth:
  "i < length (task_pool s) \<Longrightarrow>
     task_pool (wake_records i s) ! j =
       (if j = i \<and> wake_due s i then (task_pool s ! j)\<lparr>wake_time := 0, state := TASK_READY\<rparr>
        else task_pool s ! j)"
  by (simp add: wake_records_def tcb_upd_nth)

lemma wake_due_other:
  "i < length (task_pool s) \<Longrightarrow> j \<noteq> i \<Longrightarrow> wake_due (wake_records i s) j = wake_due s j"
  by (simp add: wake_due_def wake_records_nth)

lemma fold_wake_nth:
  assumes "distinct is" and "\<forall>i\<in>set is. i < length (task_pool s)"
  shows "task_pool (fold wake_records is s) ! j =
       (if j \<in> set is \<and> wake_due s j then (task_pool s ! j)\<lparr>wake_time := 0, state := TASK_READY\<rparr>
        else task_pool s ! j)"
  using assms
proof (induction "is" arbitrary: s)
  case Nil
  then show ?case by simp
next
  case (Cons i rest)
  have il: "i < length (task_pool s)" using Cons.prems by simp
  have IH: "task_pool (fold wake_records rest (wake_records i s)) ! j =
       (if j \<in> set rest \<and> wake_due (wake_records i s) j
        then (task_pool (wake_records i s) ! j)\<lparr>wake_time := 0, state := TASK_READY\<rparr>
        else task_pool (wake_records i s) ! j)"
    using Cons.prems by (intro Cons.IH) simp_all
  show ?case
  proof (cases "j = i")
    case True
    then have "j \<notin> set rest" using Cons.prems by simp
    then show ?thesis using IH True il by (simp add: wake_records_nth)
  next
    case False
    then show ?thesis using IH il by (simp add: wake_records_nth wake_due_other)
  qed
qed

lemma bookkeeping_view:
  assumes bk: "bookkeeping s' = bookkeeping x" and len: "length (task_pool x) = MAX_TASKS"
  shows "length (task_pool s') = MAX_TASKS"
    and "task_pool_used s' = task_pool_used x"
    and "current_task s' = current_task x"
    and "idle_task s' = idle_task x"
    and "system_tick_count s' = system_tick_count x"
    and "scheduler_running s' = scheduler_running x"
    and "stats s' = stats x"
    and "\<And>j. j < MAX_TASKS \<Longrightarrow> state (task_pool s' ! j) = state (task_pool x ! j)"
    and "\<And>j. j < MAX_TASKS \<Longrightarrow> priority (task_pool s' ! j) = priority (task_pool x ! j)"
    and "\<And>j. j < MAX_TASKS \<Longrightarrow> wake_time (task_pool s' ! j) = wake_time (task_pool x ! j)"
    and "\<And>j. j < MAX_TASKS \<Longrightarrow>
           time_slice_remaining (task_pool s' ! j) = time_slice_remaining (task_pool x ! j)"
    and "\<And>j. j < MAX_TASKS \<Longrightarrow> total_runtime (task_pool s' ! j) = total_runtime (task_pool x ! j)"
    and "\<And>j. j < MAX_TASKS \<Longrightarrow> last_run_time (task_pool s' ! j) = last_run_time (task_pool x ! j)"
    and "next_task_id s' = next_task_id x"
proof -
  show l: "length (task_pool s') = MAX_TASKS"
    using bookkeeping_globals(1) [OF bk] len by simp
  show "task_pool_used s' = task_pool_used x" "current_task s' = current_task x"
    "idle_task s' = idle_task x" "system_tick_count s' = system_tick_count x"
    "scheduler_running s' = scheduler_running x" "stats s' = stats x"
    "next_task_id s' = next_task_id x"
    using bookkeeping_globals [OF bk] by simp_all
  show "\<And>j. j < MAX_TASKS \<Longrightarrow> state (task_pool s' ! j) = state (task_pool x ! j)"
    "\<And>j. j < MAX_TASKS \<Longrightarrow> priority (task_pool s' ! j) = priority (task_pool x ! j)"
    "\<And>j. j < MAX_TASKS \<Longrightarrow> wake_time (task_pool s' ! j) = wake_time (task_pool x ! j)"
    "\<And>j. j < MAX_TASKS \<Longrightarrow>
           time_slice_remaining (task_pool s' ! j) = time_slice_remaining (task_pool x ! j)"
    "\<And>j. j < MAX_TASKS \<Longrightarrow> total_runtime (task_pool s' ! j) = total_runtime (task_pool x ! j)"
    "\<And>j. j < MAX_TASKS \<Longrightarrow> last_run_time (task_pool s' ! j) = last_run_time (task_pool x ! j)"
    using bookkeeping_fields [OF bk] l by simp_all
qed

text \<open>A task that becomes ready and is appended to the queue of its priority.\<close>

lemma tasks_ok_enqueue:
  assumes ok: "tasks_ok s qs" and lq: "length qs = PRIORITY_LEVELS" and i: "i < MAX_TASKS"
    and other: "\<And>j. j < MAX_TASKS \<Longrightarrow> j \<noteq> i \<Longrightarrow>
                  task_pool_used s' ! j = task_pool_used s ! j
                  \<and> state (task_pool s' ! j) = state (task_pool s ! j)
                  \<and> priority (task_pool s' ! j) = priority (task_pool s ! j)"
    and new: "task_pool_used s' ! i" "state (task_pool s' ! i) = TASK_READY"
      "unat (priority (task_pool s' ! i)) = p" "p < PRIORITY_LEVELS"
    and cur: "current_task s' = current_task s" "current_task s \<noteq> Some i"
    and bound: "\<And>p t. p < PRIORITY_LEVELS \<Longrightarrow> t \<in> set (qs ! p) \<Longrightarrow> t < MAX_TASKS"
  shows "tasks_ok s' (qs[p := qs ! p @ [i]])"
proof (rule tasks_okI)
  note T = tasks_okD [OF ok]
  have mem: "t \<in> set (qs[p := qs ! p @ [i]] ! p') \<longleftrightarrow> t \<in> set (qs ! p') \<or> (t = i \<and> p' = p)"
    if "p' < PRIORITY_LEVELS" for t p'
    using that lq by (auto simp: nth_list_update_if)
  {
    fix p' t assume p': "p' < PRIORITY_LEVELS" and t: "t \<in> set (qs[p := qs ! p @ [i]] ! p')"
    then consider "t = i" | "t \<noteq> i" "t \<in> set (qs ! p')" using mem by blast
    then show "task_pool_used s' ! t"
      using new(1) other bound [OF p'] T(1) [OF p'] by cases auto
    from t p' consider "t = i" | "t \<noteq> i" "t \<in> set (qs ! p')" using mem by blast
    then show "state (task_pool s' ! t) = TASK_READY"
      using new(2) other bound [OF p'] T(2) [OF p'] by cases auto
  }
  {
    fix t assume t: "t < MAX_TASKS" and u: "task_pool_used s' ! t"
    show "unat (priority (task_pool s' ! t)) < PRIORITY_LEVELS"
      using new(3,4) other [OF t] T(3) [OF t] u by (cases "t = i") auto
    show "(state (task_pool s' ! t) = TASK_RUNNING) = (current_task s' = Some t)"
      using new(2) cur other [OF t] T(5) [OF t] u by (cases "t = i") auto
    assume r: "state (task_pool s' ! t) = TASK_READY"
    show "t \<in> set (qs[p := qs ! p @ [i]] ! unat (priority (task_pool s' ! t)))"
    proof (cases "t = i")
      case True
      then show ?thesis using new(3,4) mem by simp
    next
      case False
      then have "t \<in> set (qs ! unat (priority (task_pool s ! t)))"
        and "unat (priority (task_pool s ! t)) < PRIORITY_LEVELS"
        using other [OF t] T(3,4) [OF t] u r by auto
      then show ?thesis using other [OF t False] mem by simp
    qed
  }
  fix c assume c: "current_task s' = Some c"
  then have "c \<noteq> i" "c < MAX_TASKS" "task_pool_used s ! c" using cur T(6,7) by auto
  then show "c < MAX_TASKS \<and> task_pool_used s' ! c" using other by simp
qed

lemma wake_one_ok:
  assumes inv: "kernel_inv s qs" and i: "i < MAX_TASKS"
  shows "\<exists>s' qs'. wake_one i s = Some s' \<and> kernel_inv s' qs'
           \<and> bookkeeping s' = bookkeeping (wake_records i s)"
proof (cases "wake_due s i")
  case False
  then have "wake_one i s = Some s" "wake_records i s = s"
    by (auto simp: wake_one_def wake_due_def wake_records_def Let_def)
  then show ?thesis using inv by auto
next
  case True
  have q: "queues_ok s qs" and ok: "tasks_ok s qs" and idle: "idle_ok s"
    using inv by (simp_all add: kernel_inv_def)
  note D = queues_okD [OF q] and T = tasks_okD [OF ok]
  have u: "task_pool_used s ! i" and b: "state (task_pool s ! i) = TASK_BLOCKED"
    using True by (simp_all add: wake_due_def)
  define p where "p = unat (priority (task_pool s ! i))"
  have p: "p < PRIORITY_LEVELS" using T(3) [OF i u] by (simp add: p_def)
  have nin: "i \<notin> set (qs ! p)" using T(2) [OF p] b by auto
  let ?s0 = "tcb_upd i (\<lambda>x. x\<lparr>state := TASK_READY\<rparr>) (tcb_upd i (\<lambda>x. x\<lparr>wake_time := 0\<rparr>) s)"
  have s0: "wake_records i s = ?s0" using True by (simp add: wake_records_def)
  have q0: "queues_ok ?s0 qs"
    by (intro queues_ok_tcb_upd q) simp_all
  have pr0: "unat (priority (task_pool ?s0 ! i)) = p"
    by (simp add: tcb_upd_nth p_def)
  from queues_ok_add [OF q0 i pr0 p nin] obtain s' where
    add: "add_task_to_ready_queue i ?s0 = Some s'"
    and q': "queues_ok s' (qs[p := qs ! p @ [i]])"
    and bk0: "bookkeeping s' = bookkeeping (tcb_upd i (\<lambda>x. x\<lparr>state := TASK_READY\<rparr>) ?s0)"
    by blast
  have "tcb_upd i (\<lambda>x. x\<lparr>state := TASK_READY\<rparr>) ?s0 = ?s0"
    using i D(1) by (intro tcb_upd_id) (simp add: tcb_upd_nth)
  then have bk: "bookkeeping s' = bookkeeping ?s0" using bk0 by simp
  have run: "wake_one i s = Some s'"
    using True add by (simp add: wake_one_def wake_due_def Let_def)
  have len0: "length (task_pool ?s0) = MAX_TASKS" using D(1) by simp
  note V = bookkeeping_view [OF bk len0]
  have "tasks_ok s' (qs[p := qs ! p @ [i]])"
  proof (rule tasks_ok_enqueue [OF ok D(4) i])
    fix j assume "j < MAX_TASKS" "j \<noteq> i"
    then show "task_pool_used s' ! j = task_pool_used s ! j
        \<and> state (task_pool s' ! j) = state (task_pool s ! j)
        \<and> priority (task_pool s' ! j) = priority (task_pool s ! j)"
      using V(2,8,9) by (simp add: tcb_upd_nth)
  next
    show "task_pool_used s' ! i" using V(2) u by simp
    show "state (task_pool s' ! i) = TASK_READY"
      using V(8) [OF i] i D(1) by (simp add: tcb_upd_nth)
    show "unat (priority (task_pool s' ! i)) = p"
      using V(9) [OF i] by (simp add: tcb_upd_nth p_def)
    show "current_task s' = current_task s" using V(3) by simp
    show "current_task s \<noteq> Some i" using T(5) [OF i u] b by auto
  qed (use p D(8) in auto)
  moreover have "idle_ok s'"
  proof -
    obtain k where id: "idle_task s = Some k" and kl: "k < MAX_TASKS"
      and ku: "task_pool_used s ! k"
      and kst: "state (task_pool s ! k) = TASK_READY \<or> state (task_pool s ! k) = TASK_RUNNING"
      using idle by (auto simp: idle_ok_def split: option.splits)
    have "k \<noteq> i" using kst b by auto
    then have "state (task_pool s' ! k) = state (task_pool s ! k)"
      using V(8) [OF kl] by (simp add: tcb_upd_nth)
    then show ?thesis using id kl ku kst V(2,4) by (auto simp: idle_ok_def)
  qed
  ultimately have "kernel_inv s' (qs[p := qs ! p @ [i]])"
    using q' by (simp add: kernel_inv_def)
  then show ?thesis using run bk s0 by auto
qed

lemma wake_loop_ok:
  assumes "kernel_inv s qs" and "\<forall>i\<in>set is. i < MAX_TASKS"
  shows "\<exists>s' qs'. wake_loop is s = Some s' \<and> kernel_inv s' qs'
           \<and> bookkeeping s' = bookkeeping (fold wake_records is s)"
  using assms
proof (induction "is" arbitrary: s qs)
  case Nil
  then show ?case by auto
next
  case (Cons i rest)
  from wake_one_ok [OF Cons.prems(1), of i] Cons.prems(2)
  obtain s1 qs1 where one: "wake_one i s = Some s1" and inv1: "kernel_inv s1 qs1"
    and bk1: "bookkeeping s1 = bookkeeping (wake_records i s)" by auto
  from Cons.IH [OF inv1] Cons.prems(2)
  obtain s' qs' where loop: "wake_loop rest s1 = Some s'" and inv': "kernel_inv s' qs'"
    and bk': "bookkeeping s' = bookkeeping (fold wake_records rest s1)" by auto
  have "length (task_pool s1) = MAX_TASKS"
    using inv1 by (simp add: kernel_inv_def queues_ok_def)
  then have "bookkeeping (fold wake_records rest s1)
      = bookkeeping (fold wake_records rest (wake_records i s))"
    using Cons.prems(2) by (intro fold_wake_cong [OF bk1]) simp
  then show ?case using one loop inv' bk' by auto
qed

section \<open>Invariance\<close>

lemma kernel_inv_records:
  assumes inv: "kernel_inv s qs"
    and "ready_queues s' = ready_queues s" and "nexts s' = nexts s" and "prevs s' = prevs s"
    and "task_pool_used s' = task_pool_used s" and "current_task s' = current_task s"
    and "idle_task s' = idle_task s" and "length (task_pool s') = MAX_TASKS"
    and "\<And>j. j < MAX_TASKS \<Longrightarrow> state (task_pool s' ! j) = state (task_pool s ! j)"
    and "\<And>j. j < MAX_TASKS \<Longrightarrow> priority (task_pool s' ! j) = priority (task_pool s ! j)"
  shows "kernel_inv s' qs"
proof -
  have q: "queues_ok s qs" and ok: "tasks_ok s qs" and idle: "idle_ok s"
    using inv by (simp_all add: kernel_inv_def)
  note D = queues_okD [OF q]
  have "length (task_pool_used s') = MAX_TASKS" using D(2) by (simp add: assms(5))
  with q assms(2-4) assms(10) assms(8) have "queues_ok s' qs" by (rule queues_ok_cong)
  moreover have "tasks_ok s' qs"
    using ok D(8) unfolding tasks_ok_def assms(5,6)
    by (simp add: assms(9,10) cong: conj_cong)
  moreover have "idle_ok s'"
    using idle unfolding idle_ok_def assms(5,7)
    by (auto simp: assms(9) split: option.splits)
  ultimately show ?thesis by (simp add: kernel_inv_def)
qed

lemma kernel_inv_tcb_upd:
  assumes "kernel_inv s qs" and "\<And>x. next_ptr (f x) = next_ptr x"
    and "\<And>x. prev_ptr (f x) = prev_ptr x" and "\<And>x. priority (f x) = priority x"
    and "\<And>x. state (f x) = state x"
  shows "kernel_inv (tcb_upd c f s) qs"
proof -
  have len: "length (task_pool s) = MAX_TASKS"
    using assms(1) by (simp add: kernel_inv_def queues_ok_def)
  show ?thesis
    using assms(1)
  proof (rule kernel_inv_records)
    show "nexts (tcb_upd c f s) = nexts s" "prevs (tcb_upd c f s) = prevs s"
      using assms by (simp_all add: nexts_tcb_upd_same prevs_tcb_upd_same)
  qed (use assms len in \<open>simp_all add: tcb_upd_nth\<close>)
qed

lemma tick_count_simps [simp]:
  "scheduler_running (tick_count s) = scheduler_running s"
  "current_task (tick_count s) = current_task s"
  "idle_task (tick_count s) = idle_task s"
  "task_pool (tick_count s) = task_pool s"
  "task_pool_used (tick_count s) = task_pool_used s"
  "ready_queues (tick_count s) = ready_queues s"
  "next_task_id (tick_count s) = next_task_id s"
  "system_tick_count (tick_count s) = system_tick_count s + 1"
  by (simp_all add: tick_count_def)

lemma tick_slice_simps [simp]:
  "scheduler_running (tick_slice c s) = scheduler_running s"
  "current_task (tick_slice c s) = current_task s"
  "idle_task (tick_slice c s) = idle_task s"
  "task_pool_used (tick_slice c s) = task_pool_used s"
  "ready_queues (tick_slice c s) = ready_queues s"
  "next_task_id (tick_slice c s) = next_task_id s"
  "system_tick_count (tick_slice c s) = system_tick_count s"
  "stats (tick_slice c s) = stats s"
  "length (task_pool (tick_slice c s)) = length (task_pool s)"
  by (simp_all add: tick_slice_def)

lemma kernel_inv_tick_count:
  assumes "kernel_inv s qs"
  shows "kernel_inv (tick_count s) qs"
proof -
  have len: "length (task_pool s) = MAX_TASKS"
    using assms by (simp add: kernel_inv_def queues_ok_def)
  show ?thesis
    using assms by (rule kernel_inv_records) (simp_all add: len fun_eq_iff nexts_def prevs_def)
qed

lemma kernel_inv_tick_slice: "kernel_inv s qs \<Longrightarrow> kernel_inv (tick_slice c s) qs"
  by (simp add: tick_slice_def kernel_inv_tcb_upd)

text \<open>While the idle task is ready, some queue is not empty.\<close>

lemma ready_queued:
  assumes "pre_switch s qs" and "i < MAX_TASKS" and "task_pool_used s ! i"
    and "state (task_pool s ! i) = TASK_READY"
  shows "first_nonempty qs \<noteq> None"
proof -
  note P = pre_switchD [OF assms(1)]
  have "unat (priority (task_pool s ! i)) < PRIORITY_LEVELS"
    and "i \<in> set (qs ! unat (priority (task_pool s ! i)))"
    using P(3,4) assms(2-4) by simp_all
  then show ?thesis by (auto simp: first_nonempty_None)
qed

lemma switch_to_head:
  assumes q: "queues_ok s qs" and ps: "pre_switch s qs" and idle: "idle_ok s"
    and f: "first_nonempty qs = Some p"
  shows "\<exists>s' qs'. reschedule s = Some s' \<and> kernel_inv s' qs'
           \<and> bookkeeping s' = bookkeeping (switch_records (current_task s) (hd (qs ! p)) s)"
proof -
  note D = queues_okD [OF q] and P = pre_switchD [OF ps]
  define h where "h = hd (qs ! p)"
  have p: "p < PRIORITY_LEVELS" and ne: "qs ! p \<noteq> []"
    using f by (simp_all add: first_nonempty_Some)
  have hin: "h \<in> set (qs ! p)" using ne by (simp add: h_def)
  have h: "h < MAX_TASKS" using D(8) [OF p hin] .
  have cur: "\<And>c. current_task s = Some c \<Longrightarrow> c < MAX_TASKS \<and> c \<noteq> h"
    using P(6,8) P(2) [OF p hin] by auto
  from dispatch_ok [OF q ps f] obtain s' where
    run: "reschedule s = Some s'"
    and q': "queues_ok s' (switch_queues (current_task s) h s (qs[p := rotate1 (qs ! p)]))"
    and ok': "tasks_ok s' (switch_queues (current_task s) h s (qs[p := rotate1 (qs ! p)]))"
    and bk: "bookkeeping s' = bookkeeping (switch_records (current_task s) h s)"
    unfolding h_def by blast
  have "idle_ok s'" by (rule idle_ok_switch [OF idle bk D(1) h cur])
  then show ?thesis using run q' ok' bk unfolding kernel_inv_def h_def by blast
qed

text \<open>A reschedule while the current task runs: the tick and the yield.\<close>

lemma reschedule_running:
  assumes inv: "kernel_inv s qs" and c: "current_task s = Some c"
  shows "\<exists>s' qs'. reschedule s = Some s' \<and> kernel_inv s' qs'
           \<and> (case first_nonempty qs of
                 None \<Rightarrow> s' = s
               | Some p \<Rightarrow> bookkeeping s' = bookkeeping (switch_records (Some c) (hd (qs ! p)) s))"
proof -
  have q: "queues_ok s qs" and ok: "tasks_ok s qs" and idle: "idle_ok s"
    using inv by (simp_all add: kernel_inv_def)
  note T = tasks_okD [OF ok]
  have ps: "pre_switch s qs" using ok by (rule tasks_ok_pre_switch)
  show ?thesis
  proof (cases "first_nonempty qs")
    case None
    obtain i where id: "idle_task s = Some i" and il: "i < MAX_TASKS"
      and iu: "task_pool_used s ! i"
      and ist: "state (task_pool s ! i) = TASK_READY \<or> state (task_pool s ! i) = TASK_RUNNING"
      using idle by (auto simp: idle_ok_def split: option.splits)
    have "state (task_pool s ! i) \<noteq> TASK_READY"
      using ready_queued [OF ps il iu] None by auto
    then have "i = c" using ist T(5) [OF il iu] c by auto
    then have "reschedule s = Some s"
      using queues_ok_next_none(1) [OF q None] id c by (simp add: reschedule_def)
    then show ?thesis using inv None by auto
  next
    case (Some p)
    from switch_to_head [OF q ps idle Some] show ?thesis using Some c by auto
  qed
qed

lemma need_reschedule_ok:
  assumes q: "queues_ok s qs"
  shows "need_reschedule s c =
           Some (time_slice_remaining (task_pool s ! c) = 0
                 \<or> (case first_nonempty qs of
                      None \<Rightarrow> False
                    | Some p \<Rightarrow> priority (task_pool s ! hd (qs ! p)) < priority (task_pool s ! c)))"
proof (cases "first_nonempty qs")
  case None
  then show ?thesis
    using queues_ok_next_none(2) [OF q None] by (simp add: need_reschedule_def)
next
  case (Some p)
  have p: "p < PRIORITY_LEVELS" and ne: "qs ! p \<noteq> []"
    using Some by (simp_all add: first_nonempty_Some)
  then have "hd (qs ! p) < MAX_TASKS" using queues_okD(8) [OF q p] by simp
  then show ?thesis
    using queues_ok_next_some(3) [OF q Some] Some by (simp add: need_reschedule_def)
qed

lemma tick_ok:
  assumes inv: "kernel_inv s qs"
  shows "\<exists>s' qs'. scheduler_tick s = Some s' \<and> kernel_inv s' qs'"
proof (cases "scheduler_running s \<and> current_task s \<noteq> None")
  case False
  then have "scheduler_tick s = Some (tick_count s)"
    by (auto simp: scheduler_tick_def tick_count_def Let_def split: option.splits)
  then show ?thesis using kernel_inv_tick_count [OF inv] by auto
next
  case True
  then obtain c where run: "scheduler_running s" and c: "current_task s = Some c" by auto
  have cl: "c < MAX_TASKS" using inv c by (auto simp: kernel_inv_def tasks_ok_def)
  let ?s2 = "tick_slice c (tick_count s)"
  have inv2: "kernel_inv ?s2 qs"
    by (intro kernel_inv_tick_slice kernel_inv_tick_count inv)
  from wake_loop_ok [OF inv2, of "[0..<MAX_TASKS]"]
  obtain s3 qs3 where wake: "wake_sleeping_tasks ?s2 = Some s3" and inv3: "kernel_inv s3 qs3"
    and bk3: "bookkeeping s3 = bookkeeping (fold wake_records [0..<MAX_TASKS] ?s2)"
    by (auto simp: wake_sleeping_tasks_def)
  have q3: "queues_ok s3 qs3" using inv3 by (simp add: kernel_inv_def)
  have c3: "current_task s3 = Some c"
    using bookkeeping_globals(3) [OF bk3] c by simp
  from reschedule_running [OF inv3 c3] obtain s4 qs4 where
    res: "reschedule s3 = Some s4" and inv4: "kernel_inv s4 qs4" by blast
  have "scheduler_tick s = Some s4 \<or> scheduler_tick s = Some s3"
    using run c cl wake res need_reschedule_ok [OF q3, of c]
    by (simp add: scheduler_tick_def Let_def)
  then show ?thesis using inv3 inv4 by auto
qed

subsection \<open>Yield, sleep and start\<close>

lemma yield_ok:
  assumes inv: "kernel_inv s qs"
  shows "\<exists>s' qs'. task_yield s = Some s' \<and> kernel_inv s' qs'"
proof (cases "scheduler_running s \<and> current_task s \<noteq> None")
  case False
  then have "task_yield s = Some s"
    by (auto simp: task_yield_def split: option.splits)
  then show ?thesis using inv by auto
next
  case True
  then obtain c where run: "scheduler_running s" and c: "current_task s = Some c" by auto
  have cl: "c < MAX_TASKS" using inv c by (auto simp: kernel_inv_def tasks_ok_def)
  have "kernel_inv (tcb_upd c (\<lambda>x. x\<lparr>time_slice_remaining := 0\<rparr>) s) qs"
    by (rule kernel_inv_tcb_upd [OF inv]) simp_all
  from tick_ok [OF this] show ?thesis
    using run c cl by (simp add: task_yield_def)
qed

lemma sleep_records_simps [simp]:
  "ready_queues (sleep_records c ms s) = ready_queues s"
  "current_task (sleep_records c ms s) = current_task s"
  "idle_task (sleep_records c ms s) = idle_task s"
  "task_pool_used (sleep_records c ms s) = task_pool_used s"
  "scheduler_running (sleep_records c ms s) = scheduler_running s"
  "system_tick_count (sleep_records c ms s) = system_tick_count s"
  "stats (sleep_records c ms s) = stats s"
  "next_task_id (sleep_records c ms s) = next_task_id s"
  "length (task_pool (sleep_records c ms s)) = length (task_pool s)"
  by (simp_all add: sleep_records_def)

lemma sleep_records_nth:
  "c < length (task_pool s) \<Longrightarrow>
     task_pool (sleep_records c ms s) ! j =
       (if j = c then (task_pool s ! c)\<lparr>wake_time := system_tick_count s + ms,
                                        state := TASK_BLOCKED\<rparr>
        else task_pool s ! j)"
  by (simp add: sleep_records_def tcb_upd_nth)

lemma sleep_ok:
  assumes inv: "kernel_inv s qs" and run: "scheduler_running s"
    and c: "current_task s = Some c" and ni: "idle_task s \<noteq> Some c"
  shows "\<exists>s' qs' p. task_sleep ms s = Some s' \<and> kernel_inv s' qs'
           \<and> first_nonempty qs = Some p
           \<and> bookkeeping s' =
               bookkeeping (switch_records (Some c) (hd (qs ! p)) (sleep_records c ms s))"
proof -
  have q: "queues_ok s qs" and ok: "tasks_ok s qs" and idle: "idle_ok s"
    using inv by (simp_all add: kernel_inv_def)
  note D = queues_okD [OF q] and T = tasks_okD [OF ok]
  have cl: "c < MAX_TASKS" and cu: "task_pool_used s ! c" using T(6,7) [OF c] by simp_all
  have crun: "state (task_pool s ! c) = TASK_RUNNING" using T(5) [OF cl cu] c by simp
  let ?s0 = "sleep_records c ms s"
  have q0: "queues_ok ?s0 qs"
    unfolding sleep_records_def by (intro queues_ok_tcb_upd q) simp_all
  have st0: "\<And>j. state (task_pool ?s0 ! j) = (if j = c then TASK_BLOCKED else state (task_pool s ! j))"
    and pr0: "\<And>j. priority (task_pool ?s0 ! j) = priority (task_pool s ! j)"
    using cl D(1) by (simp_all add: sleep_records_nth)
  have ps0: "pre_switch ?s0 qs"
    unfolding pre_switch_def
  proof (intro conjI allI impI ballI)
    fix p t assume "p < PRIORITY_LEVELS" "t \<in> set (qs ! p)"
    then show "task_pool_used ?s0 ! t" "state (task_pool ?s0 ! t) = TASK_READY"
      using T(1,2) crun by (auto simp: st0)
  next
    fix t assume t: "t < MAX_TASKS" "task_pool_used ?s0 ! t"
    then show "unat (priority (task_pool ?s0 ! t)) < PRIORITY_LEVELS"
      using T(3) by (simp add: pr0)
    {
      assume "state (task_pool ?s0 ! t) = TASK_READY"
      then show "t \<in> set (qs ! unat (priority (task_pool ?s0 ! t)))"
        using t T(4) by (auto simp: st0 pr0 split: if_splits)
    }
    {
      assume "state (task_pool ?s0 ! t) = TASK_RUNNING"
      then show "current_task ?s0 = Some t"
        using t T(5) by (auto simp: st0 split: if_splits)
    }
  next
    fix k assume "current_task ?s0 = Some k"
    then show "k < MAX_TASKS" "task_pool_used ?s0 ! k" "state (task_pool ?s0 ! k) \<noteq> TASK_READY"
      using c cl cu st0 [of c] by auto
  qed
  obtain i where id: "idle_task s = Some i" and il: "i < MAX_TASKS"
    and iu: "task_pool_used s ! i"
    and ist: "state (task_pool s ! i) = TASK_READY \<or> state (task_pool s ! i) = TASK_RUNNING"
    using idle by (auto simp: idle_ok_def split: option.splits)
  have ic: "i \<noteq> c" using id ni by auto
  then have "state (task_pool s ! i) = TASK_READY"
    using ist T(5) [OF il iu] c by auto
  then have "first_nonempty qs \<noteq> None"
    using ready_queued [OF tasks_ok_pre_switch [OF ok] il iu] by simp
  then obtain p where f: "first_nonempty qs = Some p" by auto
  have idle0: "idle_ok ?s0"
    using id il iu ist ic by (auto simp: idle_ok_def st0)
  from switch_to_head [OF q0 ps0 idle0 f] obtain s' qs' where
    "reschedule ?s0 = Some s'" "kernel_inv s' qs'"
    "bookkeeping s' = bookkeeping (switch_records (Some c) (hd (qs ! p)) ?s0)"
    using c by auto
  then show ?thesis
    using run c cl f by (auto simp: task_sleep_def sleep_records_def)
qed

lemma start_ok:
  assumes inv: "kernel_inv s qs" and c: "current_task s = None"
  shows "\<exists>s' qs' p. rtos_start s = Some s' \<and> kernel_inv s' qs'
           \<and> first_nonempty qs = Some p
           \<and> bookkeeping s' =
               bookkeeping (switch_records None (hd (qs ! p)) (s\<lparr>scheduler_running := True\<rparr>))"
proof -
  let ?s0 = "s\<lparr>scheduler_running := True\<rparr>"
  have len: "length (task_pool s) = MAX_TASKS"
    using inv by (simp add: kernel_inv_def queues_ok_def)
  have inv0: "kernel_inv ?s0 qs"
    using inv by (rule kernel_inv_records) (simp_all add: len fun_eq_iff nexts_def prevs_def)
  have q: "queues_ok ?s0 qs" and ok: "tasks_ok ?s0 qs" and idle: "idle_ok ?s0"
    using inv0 by (simp_all add: kernel_inv_def)
  note T = tasks_okD [OF ok]
  have ps: "pre_switch ?s0 qs" using ok by (rule tasks_ok_pre_switch)
  obtain i where il: "i < MAX_TASKS" and iu: "task_pool_used ?s0 ! i"
    and ist: "state (task_pool ?s0 ! i) = TASK_READY \<or> state (task_pool ?s0 ! i) = TASK_RUNNING"
    using idle by (auto simp: idle_ok_def split: option.splits)
  have "state (task_pool ?s0 ! i) = TASK_READY"
    using ist T(5) [OF il iu] c by auto
  then have "first_nonempty qs \<noteq> None"
    using ready_queued [OF ps il iu] by simp
  then obtain p where f: "first_nonempty qs = Some p" by auto
  from switch_to_head [OF q ps idle f] obtain s' qs' where
    res: "reschedule ?s0 = Some s'" and inv': "kernel_inv s' qs'"
    and bk: "bookkeeping s' = bookkeeping (switch_records None (hd (qs ! p)) ?s0)"
    using c by auto
  have "rtos_start s = reschedule ?s0"
    using queues_ok_next_some(1) [OF q f] c
    by (simp add: rtos_start_def reschedule_def Let_def)
  then show ?thesis using res inv' bk f by auto
qed

subsection \<open>Task creation\<close>

lemma find_free_slot_None:
  "find_free_slot is s = None \<longleftrightarrow> (\<forall>i\<in>set is. task_pool_used s ! i)"
  by (induction "is") auto

lemma find_free_slot_Some:
  "find_free_slot is s = Some k \<Longrightarrow> k \<in> set is \<and> \<not> task_pool_used s ! k"
  by (induction "is") (auto split: if_splits)

lemma create_records_fields:
  assumes "slot < length (task_pool s)"
  shows "task_pool_used (create_records nm prio stk slot s) = (task_pool_used s)[slot := True]"
    and "current_task (create_records nm prio stk slot s) = current_task s"
    and "idle_task (create_records nm prio stk slot s) = idle_task s"
    and "scheduler_running (create_records nm prio stk slot s) = scheduler_running s"
    and "system_tick_count (create_records nm prio stk slot s) = system_tick_count s"
    and "next_task_id (create_records nm prio stk slot s) = next_task_id s + 1"
    and "stats (create_records nm prio stk slot s) =
           (stats s)\<lparr>tasks_created := tasks_created (stats s) + 1\<rparr>"
    and "length (task_pool (create_records nm prio stk slot s)) = length (task_pool s)"
    and "ready_queues (create_records nm prio stk slot s) = ready_queues s"
    and "j \<noteq> slot \<Longrightarrow> task_pool (create_records nm prio stk slot s) ! j = task_pool s ! j"
    and "task_pool (create_records nm prio stk slot s) ! slot =
           \<lparr>task_id = next_task_id s, name = take 15 nm, priority = prio, state = TASK_READY,
            time_slice_remaining = of_nat TIME_SLICE_MS, stack_size = stk, total_runtime = 0,
            last_run_time = system_tick_count s, wake_time = 0,
            next_ptr = None, prev_ptr = None\<rparr>"
  using assms by (simp_all add: create_records_def Let_def tcb_upd_nth)

lemma create_invalid:
  assumes "\<not> unat prio < PRIORITY_LEVELS \<or> unat stk > STACK_SIZE
           \<or> find_free_slot [0..<MAX_TASKS] s = None"
  shows "task_create nm prio stk s = Some (0, s)"
  using assms by (auto simp: task_create_def)

lemma create_ok:
  assumes q: "queues_ok s qs" and ok: "tasks_ok s qs"
    and p: "unat prio < PRIORITY_LEVELS" and stk: "\<not> unat stk > STACK_SIZE"
    and slot: "find_free_slot [0..<MAX_TASKS] s = Some slot"
  shows "\<exists>s'. task_create nm prio stk s = Some (next_task_id s, s')
           \<and> queues_ok s' (qs[unat prio := qs ! unat prio @ [slot]])
           \<and> tasks_ok s' (qs[unat prio := qs ! unat prio @ [slot]])
           \<and> (idle_ok s \<longrightarrow> idle_ok s')
           \<and> bookkeeping s' = bookkeeping (create_records nm prio stk slot s)"
proof -
  note D = queues_okD [OF q] and T = tasks_okD [OF ok]
  have sl: "slot < MAX_TASKS" and free: "\<not> task_pool_used s ! slot"
    using find_free_slot_Some [OF slot] by simp_all
  have sll: "slot < length (task_pool s)" using sl D(1) by simp
  define s1 where "s1 = s\<lparr>task_pool_used := (task_pool_used s)[slot := True]\<rparr>"
  define s2 where "s2 = tcb_upd slot (\<lambda>x. x\<lparr>task_id := next_task_id s1\<rparr>)
                 (s1\<lparr>next_task_id := next_task_id s1 + 1\<rparr>)"
  define s3 where "s3 = tcb_upd slot
                 (\<lambda>x. x\<lparr>name := take 15 nm, priority := prio, state := TASK_READY,
                        time_slice_remaining := of_nat TIME_SLICE_MS,
                        stack_size := stk, total_runtime := 0,
                        last_run_time := system_tick_count s2, wake_time := 0,
                        next_ptr := None, prev_ptr := None\<rparr>) s2"
  have cr: "create_records nm prio stk slot s =
      s3\<lparr>stats := (stats s3)\<lparr>tasks_created := tasks_created (stats s3) + 1\<rparr>\<rparr>"
    by (simp add: create_records_def Let_def s1_def s2_def s3_def)
  have g3: "ready_queues s3 = ready_queues s" "length (task_pool s3) = MAX_TASKS"
    "length (task_pool_used s3) = MAX_TASKS" "task_pool_used s3 = (task_pool_used s)[slot := True]"
    "current_task s3 = current_task s" "idle_task s3 = idle_task s"
    using D(1,2) by (simp_all add: s3_def s2_def s1_def)
  have o3: "\<And>j. j \<noteq> slot \<Longrightarrow> task_pool s3 ! j = task_pool s ! j"
    by (simp add: s3_def s2_def s1_def tcb_upd_nth)
  have n3: "state (task_pool s3 ! slot) = TASK_READY" "priority (task_pool s3 ! slot) = prio"
    using sll by (simp_all add: s3_def s2_def s1_def tcb_upd_nth)
  have nmem: "slot \<notin> set (qs ! p')" if "p' < PRIORITY_LEVELS" for p'
    using T(1) [OF that] free by auto
  have q3: "queues_ok s3 qs"
  proof (rule queues_okI)
    fix p' assume p': "p' < PRIORITY_LEVELS"
    show "ready_queues s3 ! p' = head_of (qs ! p')" using D(5) [OF p'] g3 by simp
    show "distinct (qs ! p')" using D(6) [OF p'] .
    have "\<And>j. j \<in> set (qs ! p') \<Longrightarrow> task_pool s3 ! j = task_pool s ! j"
      using nmem [OF p'] o3 by metis
    then have "circ (nexts s3) (prevs s3) (qs ! p') = circ (nexts s) (prevs s) (qs ! p')"
      by (intro circ_cong) (simp_all add: nexts_def prevs_def)
    then show "circ (nexts s3) (prevs s3) (qs ! p')" using D(7) [OF p'] by simp
  next
    fix p' t assume p': "p' < PRIORITY_LEVELS" and t: "t \<in> set (qs ! p')"
    show "t < MAX_TASKS" using D(8) [OF p' t] .
    have "t \<noteq> slot" using nmem [OF p'] t by auto
    then show "unat (priority (task_pool s3 ! t)) = p'" using D(9) [OF p' t] by (simp add: o3)
  qed (use g3 D in simp_all)
  have pr3: "unat (priority (task_pool s3 ! slot)) = unat prio" using n3 by simp
  from queues_ok_add [OF q3 sl pr3 p nmem [OF p]] obtain s4 where
    add: "add_task_to_ready_queue slot s3 = Some s4"
    and q4: "queues_ok s4 (qs[unat prio := qs ! unat prio @ [slot]])"
    and bk4: "bookkeeping s4 = bookkeeping (tcb_upd slot (\<lambda>x. x\<lparr>state := TASK_READY\<rparr>) s3)"
    by blast
  have "tcb_upd slot (\<lambda>x. x\<lparr>state := TASK_READY\<rparr>) s3 = s3"
    using n3 by (intro tcb_upd_id) simp
  then have bk4': "bookkeeping s4 = bookkeeping s3" using bk4 by simp
  define s5 where "s5 = s4\<lparr>stats := (stats s4)\<lparr>tasks_created := tasks_created (stats s4) + 1\<rparr>\<rparr>"
  note V4 = bookkeeping_view [OF bk4' g3(2)]
  have tid: "task_id (task_pool s5 ! slot) = next_task_id s"
    using bookkeeping_fields(7) [OF bk4', of slot] V4(1) sl sll
    by (simp add: s5_def s3_def s2_def s1_def tcb_upd_nth)
  have "task_create nm prio stk s =
      (case add_task_to_ready_queue slot s3 of
         None \<Rightarrow> None
       | Some s4 \<Rightarrow>
           Some (task_id (task_pool (s4\<lparr>stats := (stats s4)\<lparr>tasks_created :=
                   tasks_created (stats s4) + 1\<rparr>\<rparr>) ! slot),
                 s4\<lparr>stats := (stats s4)\<lparr>tasks_created := tasks_created (stats s4) + 1\<rparr>\<rparr>))"
    using p stk slot unfolding task_create_def s3_def s2_def s1_def
    by (simp add: Let_def split: option.splits)
  then have run: "task_create nm prio stk s = Some (next_task_id s, s5)"
    using add tid by (simp add: s5_def)
  have q5: "queues_ok s5 (qs[unat prio := qs ! unat prio @ [slot]])"
    using q4 by (rule queues_ok_cong)
      (simp_all add: s5_def fun_eq_iff nexts_def prevs_def queues_okD(1,2) [OF q4])
  have "bookkeeping (a\<lparr>stats := x\<rparr>) = (bookkeeping a)\<lparr>stats := x\<rparr>" for a x
    by (simp add: bookkeeping_def)
  then have bk5: "bookkeeping s5 = bookkeeping (create_records nm prio stk slot s)"
    using bk4' V4(7) unfolding cr s5_def by simp
  have st5: "\<And>j. j < MAX_TASKS \<Longrightarrow> state (task_pool s5 ! j) = state (task_pool s3 ! j)"
    and pr5: "\<And>j. j < MAX_TASKS \<Longrightarrow> priority (task_pool s5 ! j) = priority (task_pool s3 ! j)"
    and u5: "task_pool_used s5 = (task_pool_used s)[slot := True]"
    and c5: "current_task s5 = current_task s" and i5: "idle_task s5 = idle_task s"
    using V4(8,9,2,3,4) g3 by (simp_all add: s5_def)
  have ok5: "tasks_ok s5 (qs[unat prio := qs ! unat prio @ [slot]])"
  proof (rule tasks_ok_enqueue [OF ok D(4) sl])
    fix j assume "j < MAX_TASKS" "j \<noteq> slot"
    then show "task_pool_used s5 ! j = task_pool_used s ! j
        \<and> state (task_pool s5 ! j) = state (task_pool s ! j)
        \<and> priority (task_pool s5 ! j) = priority (task_pool s ! j)"
      by (simp add: st5 pr5 u5 o3)
  next
    show "task_pool_used s5 ! slot" using sl D(2) by (simp add: u5)
    show "state (task_pool s5 ! slot) = TASK_READY" using sl n3 by (simp add: st5)
    show "unat (priority (task_pool s5 ! slot)) = unat prio" using sl n3 by (simp add: pr5)
    show "current_task s5 = current_task s" by (rule c5)
    show "current_task s \<noteq> Some slot" using T(7) free by auto
  qed (use p D(8) in auto)
  have "idle_ok s5" if io: "idle_ok s"
  proof -
    obtain i where id: "idle_task s = Some i" and il: "i < MAX_TASKS"
      and iu: "task_pool_used s ! i"
      and ist: "state (task_pool s ! i) = TASK_READY \<or> state (task_pool s ! i) = TASK_RUNNING"
      using io by (auto simp: idle_ok_def split: option.splits)
    have "i \<noteq> slot" using iu free by auto
    then show ?thesis
      using id il iu ist by (auto simp: idle_ok_def i5 u5 st5 o3)
  qed
  with run q5 ok5 bk5 show ?thesis by blast
qed

section \<open>Reading the queues off the links\<close>

lemma walk_links:
  assumes "links nx pv c cs" and "nx (last (c # cs)) = Some h" and "h \<notin> set cs"
    and "length cs < n"
  shows "walk nx n h c = c # cs"
  using assms
proof (induction cs arbitrary: c n)
  case Nil
  then show ?case by (cases n) simp_all
next
  case (Cons d ds)
  then obtain m where n: "n = Suc m" by (cases n) auto
  have "walk nx m h d = d # ds"
    using Cons.prems n by (intro Cons.IH) auto
  then show ?case using Cons.prems n by auto
qed

lemma bounded_distinct_length:
  assumes "distinct xs" and "\<forall>x\<in>set xs. x < n"
  shows "length xs \<le> n"
proof -
  have "card (set xs) \<le> card {..<n}"
    using assms(2) by (intro card_mono) auto
  then show ?thesis using assms(1) by (simp add: distinct_card)
qed

lemma queue_of_unique:
  assumes q: "queues_ok s qs" and p: "p < PRIORITY_LEVELS"
  shows "queue_of s p = qs ! p"
proof (cases "qs ! p")
  case Nil
  then show ?thesis using queues_okD(5) [OF q p] by (simp add: queue_of_def)
next
  case (Cons h rest)
  note D = queues_okD [OF q]
  have rq: "ready_queues s ! p = Some h" using D(5) [OF p] Cons by simp
  have c: "links (nexts s) (prevs s) (last (h # rest)) (h # rest)"
    using D(7) [OF p] Cons by (simp add: circ_eq)
  have "length (h # rest) \<le> MAX_TASKS"
    using D(6) [OF p] D(8) [OF p] Cons by (intro bounded_distinct_length) auto
  then have "walk (nexts s) MAX_TASKS h h = h # rest"
    using c D(6) [OF p] Cons by (intro walk_links [where pv = "prevs s"]) auto
  then show ?thesis using rq Cons by (simp add: queue_of_def)
qed

lemma queues_of_unique:
  assumes "queues_ok s qs"
  shows "queues_of s = qs"
proof (rule nth_equalityI)
  show "length (queues_of s) = length qs"
    using queues_okD(4) [OF assms] by (simp add: queues_of_def)
  fix p assume "p < length (queues_of s)"
  then have p: "p < PRIORITY_LEVELS" by (simp add: queues_of_def)
  then show "queues_of s ! p = qs ! p"
    using queue_of_unique [OF assms p] by (simp add: queues_of_def)
qed

lemma kernel_okI: "kernel_inv s qs \<Longrightarrow> kernel_ok s"
  using queues_of_unique [of s qs] by (simp add: kernel_ok_def kernel_inv_def)

lemma kernel_okD: "kernel_ok s \<Longrightarrow> kernel_inv s (queues_of s)"
  by (simp add: kernel_ok_def)

lemma queues_of_nth: "p < PRIORITY_LEVELS \<Longrightarrow> queues_of s ! p = queue_of s p"
  by (simp add: queues_of_def)

lemma kernel_check_ok: "kernel_check s \<Longrightarrow> kernel_ok s"
  unfolding kernel_ok_def kernel_inv_def
proof (intro conjI)
  assume k: "kernel_check s"
  show "queues_ok s (queues_of s)"
    using k unfolding kernel_check_def queues_ok_def
    by (simp add: list_all_iff queues_of_nth) (simp add: queues_of_def)
  show "tasks_ok s (queues_of s)"
    using k unfolding kernel_check_def tasks_ok_def
    by (auto simp: list_all_iff queues_of_nth split: option.splits)
  show "idle_ok s" using k by (simp add: kernel_check_def)
qed

section \<open>The anatomy of a tick\<close>

lemma switch_records_more:
  assumes "length (task_pool s) = MAX_TASKS" and "h < MAX_TASKS"
    and "\<And>c. cur = Some c \<Longrightarrow> c < MAX_TASKS \<and> c \<noteq> h"
  shows "system_tick_count (switch_records cur h s) = system_tick_count s"
    and "scheduler_running (switch_records cur h s) = scheduler_running s"
    and "stats (switch_records cur h s) =
           (stats s)\<lparr>total_context_switches := total_context_switches (stats s) + 1\<rparr>"
    and "wake_time (task_pool (switch_records cur h s) ! j) = wake_time (task_pool s ! j)"
    and "time_slice_remaining (task_pool (switch_records cur h s) ! j) =
           (if j = h then of_nat TIME_SLICE_MS else time_slice_remaining (task_pool s ! j))"
    and "total_runtime (task_pool (switch_records cur h s) ! j) =
           (if cur = Some j \<and> state (task_pool s ! j) = TASK_RUNNING
            then total_runtime (task_pool s ! j) + 1 else total_runtime (task_pool s ! j))"
    and "last_run_time (task_pool (switch_records cur h s) ! j) =
           (if cur = Some j then system_tick_count s else last_run_time (task_pool s ! j))"
  using assms
  by (cases cur;
      simp add: switch_records_def switch_in_def switch_out_def count_switch_def Let_def
        tcb_upd_nth)+

text \<open>
  The queue test of \<open>scheduler_tick\<close> is the test the specification words: some ready task
  has a priority strictly higher than the current one.
\<close>

lemma need_spec:
  assumes inv: "kernel_inv s qs" and c: "current_task s = Some c"
  shows "(case first_nonempty qs of
            None \<Rightarrow> False
          | Some p \<Rightarrow> priority (task_pool s ! hd (qs ! p)) < priority (task_pool s ! c))
       \<longleftrightarrow> (\<exists>t<MAX_TASKS. task_pool_used s ! t \<and> state (task_pool s ! t) = TASK_READY
              \<and> priority (task_pool s ! t) < priority (task_pool s ! c))"
proof -
  have q: "queues_ok s qs" and ok: "tasks_ok s qs"
    using inv by (simp_all add: kernel_inv_def)
  note D = queues_okD [OF q] and T = tasks_okD [OF ok]
  show ?thesis
  proof (cases "first_nonempty qs")
    case None
    have "\<not> (task_pool_used s ! t \<and> state (task_pool s ! t) = TASK_READY)" if "t < MAX_TASKS" for t
      using ready_queued [OF tasks_ok_pre_switch [OF ok] that] None by auto
    then show ?thesis using None by auto
  next
    case (Some p)
    have p: "p < PRIORITY_LEVELS" and ne: "qs ! p \<noteq> []" and low: "\<forall>q<p. qs ! q = []"
      using Some by (simp_all add: first_nonempty_Some)
    define h where "h = hd (qs ! p)"
    have hin: "h \<in> set (qs ! p)" using ne by (simp add: h_def)
    have h: "h < MAX_TASKS" "task_pool_used s ! h" "state (task_pool s ! h) = TASK_READY"
      "unat (priority (task_pool s ! h)) = p"
      using D(8,9) [OF p hin] T(1,2) [OF p hin] by simp_all
    have "priority (task_pool s ! h) < priority (task_pool s ! c)"
      if t: "t < MAX_TASKS" "task_pool_used s ! t" "state (task_pool s ! t) = TASK_READY"
        "priority (task_pool s ! t) < priority (task_pool s ! c)" for t
    proof -
      have "t \<in> set (qs ! unat (priority (task_pool s ! t)))" using T(4) t by simp
      then have "\<not> unat (priority (task_pool s ! t)) < p" using low by auto
      then show ?thesis using h(4) t(4) by (simp add: word_less_nat_alt)
    qed
    then show ?thesis using Some h by (auto simp: h_def)
  qed
qed

lemma tick_effect:
  assumes inv: "kernel_inv s qs" and run: "scheduler_running s"
    and c: "current_task s = Some c"
  defines "w \<equiv> fold wake_records [0..<MAX_TASKS] (tick_slice c (tick_count s))"
  shows "\<exists>s3 qs3 s' qs'.
           wake_sleeping_tasks (tick_slice c (tick_count s)) = Some s3
           \<and> kernel_inv s3 qs3 \<and> bookkeeping s3 = bookkeeping w
           \<and> scheduler_tick s =
               (if time_slice_remaining (task_pool s3 ! c) = 0
                   \<or> (\<exists>t<MAX_TASKS. task_pool_used s3 ! t \<and> state (task_pool s3 ! t) = TASK_READY
                         \<and> priority (task_pool s3 ! t) < priority (task_pool s3 ! c))
                then reschedule s3 else Some s3)
           \<and> scheduler_tick s = Some s' \<and> kernel_inv s' qs'
           \<and> (s' = s3 \<or> (\<exists>p. first_nonempty qs3 = Some p
                  \<and> bookkeeping s' = bookkeeping (switch_records (Some c) (hd (qs3 ! p)) s3)))"
proof -
  have cl: "c < MAX_TASKS" using inv c by (auto simp: kernel_inv_def tasks_ok_def)
  let ?s2 = "tick_slice c (tick_count s)"
  have inv2: "kernel_inv ?s2 qs"
    by (intro kernel_inv_tick_slice kernel_inv_tick_count inv)
  from wake_loop_ok [OF inv2, of "[0..<MAX_TASKS]"]
  obtain s3 qs3 where wake: "wake_sleeping_tasks ?s2 = Some s3" and inv3: "kernel_inv s3 qs3"
    and bk3: "bookkeeping s3 = bookkeeping w"
    by (auto simp: wake_sleeping_tasks_def w_def)
  have q3: "queues_ok s3 qs3" using inv3 by (simp add: kernel_inv_def)
  have c3: "current_task s3 = Some c"
    using bookkeeping_globals(3) [OF bk3] c by (simp add: w_def)
  from reschedule_running [OF inv3 c3] obtain s4 qs4 where
    res: "reschedule s3 = Some s4" and inv4: "kernel_inv s4 qs4"
    and eff: "case first_nonempty qs3 of
                 None \<Rightarrow> s4 = s3
               | Some p \<Rightarrow> bookkeeping s4 = bookkeeping (switch_records (Some c) (hd (qs3 ! p)) s3)"
    by blast
  define need where "need \<longleftrightarrow> time_slice_remaining (task_pool s3 ! c) = 0
                   \<or> (\<exists>t<MAX_TASKS. task_pool_used s3 ! t \<and> state (task_pool s3 ! t) = TASK_READY
                         \<and> priority (task_pool s3 ! t) < priority (task_pool s3 ! c))"
  have nd: "need_reschedule s3 c = Some need"
    using need_reschedule_ok [OF q3, of c] need_spec [OF inv3 c3] by (simp add: need_def)
  have tick: "scheduler_tick s = (if need then reschedule s3 else Some s3)"
    using run c cl wake nd by (simp add: scheduler_tick_def Let_def)
  have "\<exists>s' qs'. scheduler_tick s = Some s' \<and> kernel_inv s' qs'
           \<and> (s' = s3 \<or> (\<exists>p. first_nonempty qs3 = Some p
                  \<and> bookkeeping s' = bookkeeping (switch_records (Some c) (hd (qs3 ! p)) s3)))"
  proof (cases need)
    case True
    have "s4 = s3 \<or> (\<exists>p. first_nonempty qs3 = Some p
        \<and> bookkeeping s4 = bookkeeping (switch_records (Some c) (hd (qs3 ! p)) s3))"
      using eff by (cases "first_nonempty qs3") auto
    moreover have "scheduler_tick s = Some s4" using tick True res by simp
    ultimately show ?thesis using inv4 by blast
  next
    case False
    then have "scheduler_tick s = Some s3" using tick by simp
    then show ?thesis using inv3 by blast
  qed
  then show ?thesis using wake inv3 bk3 tick unfolding need_def by blast
qed

lemma head_facts:
  assumes inv: "kernel_inv s qs" and f: "first_nonempty qs = Some p"
  shows "hd (qs ! p) < MAX_TASKS" and "task_pool_used s ! hd (qs ! p)"
    and "state (task_pool s ! hd (qs ! p)) = TASK_READY"
    and "unat (priority (task_pool s ! hd (qs ! p))) = p"
    and "current_task s \<noteq> Some (hd (qs ! p))"
    and "hd (qs ! p) \<in> set (qs ! p)" and "p < PRIORITY_LEVELS"
proof -
  have q: "queues_ok s qs" and ok: "tasks_ok s qs"
    using inv by (simp_all add: kernel_inv_def)
  note D = queues_okD [OF q] and T = tasks_okD [OF ok]
  show p: "p < PRIORITY_LEVELS" using f by (simp add: first_nonempty_Some)
  show hin: "hd (qs ! p) \<in> set (qs ! p)" using f by (simp add: first_nonempty_Some)
  show h: "hd (qs ! p) < MAX_TASKS" and u: "task_pool_used s ! hd (qs ! p)"
    and r: "state (task_pool s ! hd (qs ! p)) = TASK_READY"
    and "unat (priority (task_pool s ! hd (qs ! p))) = p"
    using D(8,9) [OF p hin] T(1,2) [OF p hin] by simp_all
  show "current_task s \<noteq> Some (hd (qs ! p))"
    using T(5) [OF h u] r by auto
qed

text \<open>Every record of a state whose records are those of \<open>switch_records\<close>.\<close>

lemma switch_view:
  assumes bk: "bookkeeping s' = bookkeeping (switch_records cur h x)"
    and len: "length (task_pool x) = MAX_TASKS" and h: "h < MAX_TASKS"
    and curc: "\<forall>c. cur = Some c \<longrightarrow> c < MAX_TASKS \<and> c \<noteq> h"
  shows "current_task s' = Some h"
    and "task_pool_used s' = task_pool_used x"
    and "idle_task s' = idle_task x"
    and "system_tick_count s' = system_tick_count x"
    and "scheduler_running s' = scheduler_running x"
    and "stats s' = (stats x)\<lparr>total_context_switches := total_context_switches (stats x) + 1\<rparr>"
    and "\<And>j. j < MAX_TASKS \<Longrightarrow> state (task_pool s' ! j) =
           (if j = h then TASK_RUNNING
            else if cur = Some j \<and> state (task_pool x ! j) = TASK_RUNNING then TASK_READY
            else state (task_pool x ! j))"
    and "\<And>j. j < MAX_TASKS \<Longrightarrow> priority (task_pool s' ! j) = priority (task_pool x ! j)"
    and "\<And>j. j < MAX_TASKS \<Longrightarrow> wake_time (task_pool s' ! j) = wake_time (task_pool x ! j)"
    and "\<And>j. j < MAX_TASKS \<Longrightarrow> time_slice_remaining (task_pool s' ! j) =
           (if j = h then of_nat TIME_SLICE_MS else time_slice_remaining (task_pool x ! j))"
    and "\<And>j. j < MAX_TASKS \<Longrightarrow> total_runtime (task_pool s' ! j) =
           (if cur = Some j \<and> state (task_pool x ! j) = TASK_RUNNING
            then total_runtime (task_pool x ! j) + 1 else total_runtime (task_pool x ! j))"
    and "\<And>j. j < MAX_TASKS \<Longrightarrow> last_run_time (task_pool s' ! j) =
           (if cur = Some j then system_tick_count x else last_run_time (task_pool x ! j))"
proof -
  have cur: "\<And>c. cur = Some c \<Longrightarrow> c < MAX_TASKS \<and> c \<noteq> h" using curc by simp
  note F = switch_records_fields [OF len h cur] and M = switch_records_more [OF len h cur]
  have F4: "length (task_pool (switch_records cur h x)) = MAX_TASKS" using F(4) by simp
  note V = bookkeeping_view [OF bk F4]
  show "current_task s' = Some h" "task_pool_used s' = task_pool_used x"
    "idle_task s' = idle_task x" "system_tick_count s' = system_tick_count x"
    "scheduler_running s' = scheduler_running x"
    "stats s' = (stats x)\<lparr>total_context_switches := total_context_switches (stats x) + 1\<rparr>"
    using V(2-7) F(1-3) M(1-3) by simp_all
  fix j assume j: "j < MAX_TASKS"
  show "state (task_pool s' ! j) =
           (if j = h then TASK_RUNNING
            else if cur = Some j \<and> state (task_pool x ! j) = TASK_RUNNING then TASK_READY
            else state (task_pool x ! j))"
    using V(8) [OF j] F(6) by simp
  show "priority (task_pool s' ! j) = priority (task_pool x ! j)"
    using V(9) [OF j] F(5) by simp
  show "wake_time (task_pool s' ! j) = wake_time (task_pool x ! j)"
    using V(10) [OF j] M(4) by simp
  show "time_slice_remaining (task_pool s' ! j) =
           (if j = h then of_nat TIME_SLICE_MS else time_slice_remaining (task_pool x ! j))"
    using V(11) [OF j] M(5) by simp
  show "total_runtime (task_pool s' ! j) =
           (if cur = Some j \<and> state (task_pool x ! j) = TASK_RUNNING
            then total_runtime (task_pool x ! j) + 1 else total_runtime (task_pool x ! j))"
    using V(12) [OF j] M(6) by simp
  show "last_run_time (task_pool s' ! j) =
           (if cur = Some j then system_tick_count x else last_run_time (task_pool x ! j))"
    using V(13) [OF j] M(7) by simp
qed

text \<open>The records after the wake sweep of a tick.\<close>

lemma sweep_view:
  assumes bk: "bookkeeping s3 = bookkeeping (fold wake_records [0..<MAX_TASKS] x)"
    and len: "length (task_pool x) = MAX_TASKS"
  shows "current_task s3 = current_task x"
    and "task_pool_used s3 = task_pool_used x"
    and "idle_task s3 = idle_task x"
    and "system_tick_count s3 = system_tick_count x"
    and "scheduler_running s3 = scheduler_running x"
    and "stats s3 = stats x"
    and "\<And>j. j < MAX_TASKS \<Longrightarrow> state (task_pool s3 ! j) =
           (if wake_due x j then TASK_READY else state (task_pool x ! j))"
    and "\<And>j. j < MAX_TASKS \<Longrightarrow> wake_time (task_pool s3 ! j) =
           (if wake_due x j then 0 else wake_time (task_pool x ! j))"
    and "\<And>j. j < MAX_TASKS \<Longrightarrow> priority (task_pool s3 ! j) = priority (task_pool x ! j)"
    and "\<And>j. j < MAX_TASKS \<Longrightarrow>
           time_slice_remaining (task_pool s3 ! j) = time_slice_remaining (task_pool x ! j)"
    and "\<And>j. j < MAX_TASKS \<Longrightarrow> total_runtime (task_pool s3 ! j) = total_runtime (task_pool x ! j)"
    and "\<And>j. j < MAX_TASKS \<Longrightarrow> last_run_time (task_pool s3 ! j) = last_run_time (task_pool x ! j)"
proof -
  let ?w = "fold wake_records [0..<MAX_TASKS] x"
  have lw: "length (task_pool ?w) = MAX_TASKS" using len by simp
  note V = bookkeeping_view [OF bk lw]
  have nth: "task_pool ?w ! j =
       (if wake_due x j then (task_pool x ! j)\<lparr>wake_time := 0, state := TASK_READY\<rparr>
        else task_pool x ! j)" if "j < MAX_TASKS" for j
    using fold_wake_nth [of "[0..<MAX_TASKS]" x j] len that by simp
  show "current_task s3 = current_task x" "task_pool_used s3 = task_pool_used x"
    "idle_task s3 = idle_task x" "system_tick_count s3 = system_tick_count x"
    "scheduler_running s3 = scheduler_running x" "stats s3 = stats x"
    using V(2-7) by simp_all
  fix j assume j: "j < MAX_TASKS"
  show "state (task_pool s3 ! j) = (if wake_due x j then TASK_READY else state (task_pool x ! j))"
    using V(8) [OF j] nth [OF j] by simp
  show "wake_time (task_pool s3 ! j) = (if wake_due x j then 0 else wake_time (task_pool x ! j))"
    using V(10) [OF j] nth [OF j] by simp
  show "priority (task_pool s3 ! j) = priority (task_pool x ! j)"
    using V(9) [OF j] nth [OF j] by simp
  show "time_slice_remaining (task_pool s3 ! j) = time_slice_remaining (task_pool x ! j)"
    using V(11) [OF j] nth [OF j] by simp
  show "total_runtime (task_pool s3 ! j) = total_runtime (task_pool x ! j)"
    using V(12) [OF j] nth [OF j] by simp
  show "last_run_time (task_pool s3 ! j) = last_run_time (task_pool x ! j)"
    using V(13) [OF j] nth [OF j] by simp
qed

section \<open>The operations, one step at a time\<close>

lemma tick_current:
  assumes inv: "kernel_inv s qs"
  shows "\<exists>s' qs'. scheduler_tick s = Some s' \<and> kernel_inv s' qs'
           \<and> (current_task s \<noteq> None \<longrightarrow> current_task s' \<noteq> None)
           \<and> scheduler_running s' = scheduler_running s"
proof (cases "scheduler_running s \<and> current_task s \<noteq> None")
  case False
  then have "scheduler_tick s = Some (tick_count s)"
    by (auto simp: scheduler_tick_def tick_count_def Let_def split: option.splits)
  then show ?thesis using kernel_inv_tick_count [OF inv] by auto
next
  case True
  then obtain c where run: "scheduler_running s" and c: "current_task s = Some c" by auto
  have len: "length (task_pool s) = MAX_TASKS"
    using inv by (simp add: kernel_inv_def queues_ok_def)
  have cl: "c < MAX_TASKS" using inv c by (auto simp: kernel_inv_def tasks_ok_def)
  let ?x = "tick_slice c (tick_count s)"
  from tick_effect [OF inv run c] obtain s3 qs3 s' qs' where
    inv3: "kernel_inv s3 qs3"
    and bk3: "bookkeeping s3 = bookkeeping (fold wake_records [0..<MAX_TASKS] ?x)"
    and tick: "scheduler_tick s = Some s'" and inv': "kernel_inv s' qs'"
    and eff: "s' = s3 \<or> (\<exists>p. first_nonempty qs3 = Some p
                  \<and> bookkeeping s' = bookkeeping (switch_records (Some c) (hd (qs3 ! p)) s3))"
    by blast
  have lx: "length (task_pool ?x) = MAX_TASKS" using len by simp
  note W = sweep_view [OF bk3 lx]
  have c3: "current_task s3 = Some c" and r3: "scheduler_running s3"
    using W(1,5) c run by simp_all
  have l3: "length (task_pool s3) = MAX_TASKS"
    using inv3 by (simp add: kernel_inv_def queues_ok_def)
  from eff have "current_task s' \<noteq> None \<and> scheduler_running s'"
  proof
    assume "s' = s3"
    then show ?thesis using c3 r3 by simp
  next
    assume "\<exists>p. first_nonempty qs3 = Some p
                  \<and> bookkeeping s' = bookkeeping (switch_records (Some c) (hd (qs3 ! p)) s3)"
    then obtain p where f: "first_nonempty qs3 = Some p"
      and bk: "bookkeeping s' = bookkeeping (switch_records (Some c) (hd (qs3 ! p)) s3)" by blast
    note H = head_facts [OF inv3 f]
    have "\<forall>k. Some c = Some k \<longrightarrow> k < MAX_TASKS \<and> k \<noteq> hd (qs3 ! p)"
      using cl H(5) c3 by auto
    from switch_view(1,5) [OF bk l3 H(1) this] show ?thesis using r3 by simp
  qed
  then show ?thesis using tick inv' run by auto
qed

lemma step_ok:
  assumes inv: "kernel_inv s qs" and al: "allowed op s"
  shows "\<exists>s' qs'. step op s = Some s' \<and> kernel_inv s' qs'
           \<and> (op = Start \<or> op = Switch \<or> current_task s \<noteq> None \<longrightarrow> current_task s' \<noteq> None)"
proof -
  have q: "queues_ok s qs" and ok: "tasks_ok s qs" and idle: "idle_ok s"
    using inv by (simp_all add: kernel_inv_def)
  have len: "length (task_pool s) = MAX_TASKS" using queues_okD(1) [OF q] .
  show ?thesis
  proof (cases op)
    case (Create nm prio stk)
    show ?thesis
    proof (cases "\<not> unat prio < PRIORITY_LEVELS \<or> unat stk > STACK_SIZE
           \<or> find_free_slot [0..<MAX_TASKS] s = None")
      case True
      from create_invalid [OF True] show ?thesis using Create inv by auto
    next
      case False
      then obtain slot where slot: "find_free_slot [0..<MAX_TASKS] s = Some slot"
        and p: "unat prio < PRIORITY_LEVELS" and st: "\<not> unat stk > STACK_SIZE" by auto
      from create_ok [OF q ok p st slot, of nm] idle obtain s' where
        run: "task_create nm prio stk s = Some (next_task_id s, s')"
        and inv': "kernel_inv s' (qs[unat prio := qs ! unat prio @ [slot]])"
        and bk: "bookkeeping s' = bookkeeping (create_records nm prio stk slot s)"
        by (auto simp: kernel_inv_def)
      have "slot < length (task_pool s)"
        using find_free_slot_Some [OF slot] len by simp
      then have "current_task s' = current_task s"
        using bookkeeping_globals(3) [OF bk] create_records_fields(2) by simp
      then show ?thesis using Create run inv' by auto
    qed
  next
    case Start
    then have c: "current_task s = None" using al by simp
    from start_ok [OF inv c] obtain s' qs' p where
      run: "rtos_start s = Some s'" and inv': "kernel_inv s' qs'"
      and f: "first_nonempty qs = Some p"
      and bk: "bookkeeping s' =
               bookkeeping (switch_records None (hd (qs ! p)) (s\<lparr>scheduler_running := True\<rparr>))"
      by blast
    note H = head_facts [OF inv f]
    have "current_task s' = Some (hd (qs ! p))"
      using switch_view(1) [OF bk _ H(1)] len by simp
    then show ?thesis using Start run inv' by auto
  next
    case Tick
    from tick_current [OF inv] show ?thesis using Tick by auto
  next
    case Yield
    show ?thesis
    proof (cases "scheduler_running s \<and> current_task s \<noteq> None")
      case False
      then have "task_yield s = Some s"
        by (auto simp: task_yield_def split: option.splits)
      then show ?thesis using Yield inv by auto
    next
      case True
      then obtain c where run: "scheduler_running s" and c: "current_task s = Some c" by auto
      have cl: "c < MAX_TASKS" using ok c by (auto simp: tasks_ok_def)
      let ?s0 = "tcb_upd c (\<lambda>x. x\<lparr>time_slice_remaining := 0\<rparr>) s"
      have "kernel_inv ?s0 qs" by (rule kernel_inv_tcb_upd [OF inv]) simp_all
      from tick_current [OF this] show ?thesis
        using Yield run c cl by (auto simp: task_yield_def)
    qed
  next
    case (Sleep ms)
    show ?thesis
    proof (cases "scheduler_running s \<and> current_task s \<noteq> None")
      case False
      then have "task_sleep ms s = Some s"
        by (auto simp: task_sleep_def split: option.splits)
      then show ?thesis using Sleep inv by auto
    next
      case True
      then obtain c where run: "scheduler_running s" and c: "current_task s = Some c" by auto
      have ni: "idle_task s \<noteq> Some c" using al Sleep c by auto
      have cl: "c < MAX_TASKS" using ok c by (auto simp: tasks_ok_def)
      from sleep_ok [OF inv run c ni, of ms] obtain s' qs' p where
        sl: "task_sleep ms s = Some s'" and inv': "kernel_inv s' qs'"
        and f: "first_nonempty qs = Some p"
        and bk: "bookkeeping s' =
               bookkeeping (switch_records (Some c) (hd (qs ! p)) (sleep_records c ms s))"
        by blast
      note H = head_facts [OF inv f]
      have "\<forall>k. Some c = Some k \<longrightarrow> k < MAX_TASKS \<and> k \<noteq> hd (qs ! p)"
        using cl H(5) c by auto
      from switch_view(1) [OF bk _ H(1) this] have "current_task s' = Some (hd (qs ! p))"
        using len by simp
      then show ?thesis using Sleep sl inv' by auto
    qed
  next
    case Switch
    show ?thesis
    proof (cases "current_task s")
      case None
      have ps: "pre_switch s qs" using ok by (rule tasks_ok_pre_switch)
      obtain i where il: "i < MAX_TASKS" and iu: "task_pool_used s ! i"
        and ist: "state (task_pool s ! i) = TASK_READY \<or> state (task_pool s ! i) = TASK_RUNNING"
        using idle by (auto simp: idle_ok_def split: option.splits)
      have "state (task_pool s ! i) = TASK_READY"
        using ist tasks_okD(5) [OF ok il iu] None by auto
      then have "first_nonempty qs \<noteq> None" using ready_queued [OF ps il iu] by simp
      then obtain p where f: "first_nonempty qs = Some p" by auto
      from switch_to_head [OF q ps idle f] obtain s' qs' where
        res: "reschedule s = Some s'" and inv': "kernel_inv s' qs'"
        and bk: "bookkeeping s' = bookkeeping (switch_records None (hd (qs ! p)) s)"
        using None by auto
      note H = head_facts [OF inv f]
      have "current_task s' = Some (hd (qs ! p))"
        using switch_view(1) [OF bk len H(1)] by simp
      then show ?thesis using Switch res inv' by auto
    next
      case (Some c)
      have cl: "c < MAX_TASKS" using ok Some by (auto simp: tasks_ok_def)
      from reschedule_running [OF inv Some] obtain s' qs' where
        res: "reschedule s = Some s'" and inv': "kernel_inv s' qs'"
        and eff: "case first_nonempty qs of
                 None \<Rightarrow> s' = s
               | Some p \<Rightarrow> bookkeeping s' = bookkeeping (switch_records (Some c) (hd (qs ! p)) s)"
        by blast
      have "current_task s' \<noteq> None"
      proof (cases "first_nonempty qs")
        case None
        then show ?thesis using eff Some by simp
      next
        case f: (Some p)
        note H = head_facts [OF inv f]
        have k: "\<forall>k. Some c = Some k \<longrightarrow> k < MAX_TASKS \<and> k \<noteq> hd (qs ! p)"
          using cl H(5) Some by auto
        have bk: "bookkeeping s' = bookkeeping (switch_records (Some c) (hd (qs ! p)) s)"
          using eff f by simp
        from switch_view(1) [OF bk len H(1) k] show ?thesis by simp
      qed
      then show ?thesis using Switch res inv' by auto
    qed
  next
    case Sweep
    from wake_loop_ok [OF inv, of "[0..<MAX_TASKS]"] obtain s' qs' where
      w: "wake_sleeping_tasks s = Some s'" and inv': "kernel_inv s' qs'"
      and bk: "bookkeeping s' = bookkeeping (fold wake_records [0..<MAX_TASKS] s)"
      by (auto simp: wake_sleeping_tasks_def)
    have "current_task s' = current_task s" using sweep_view(1) [OF bk len] .
    then show ?thesis using Sweep w inv' by auto
  qed
qed

section \<open>The effect of a reschedule\<close>

lemma head_out_tail_in:
  assumes len: "p < length qs" "pc < length qs"
    and ne: "qs ! p \<noteq> []" and d: "distinct (qs ! p)"
  shows "(let q1 = (qs[p := rotate1 (qs ! p)])[pc := (qs[p := rotate1 (qs ! p)]) ! pc @ [c]]
          in q1[p := remove1 (hd (qs ! p)) (q1 ! p)])
       = (let q0 = qs[p := tl (qs ! p)] in q0[pc := q0 ! pc @ [c]])"
proof -
  obtain h t where ht: "qs ! p = h # t" using ne by (cases "qs ! p") auto
  have nt: "h \<notin> set t" using d ht by simp
  have r: "remove1 h (t @ [h]) = t" using nt by (simp add: remove1_append)
  have r': "remove1 h (t @ [h] @ [c]) = t @ [c]"
    using nt by (simp add: remove1_append)
  show ?thesis
  proof (cases "pc = p")
    case True
    then show ?thesis using len ht r' by (simp add: Let_def)
  next
    case False
    then show ?thesis
      using len ht r by (simp add: Let_def list_update_swap [of p pc])
  qed
qed

text \<open>
  A reschedule while \<open>c\<close> runs and some queue is not empty: the head \<open>h\<close> of the first
  non-empty queue leaves that queue and \<open>c\<close> joins the tail of the queue of its priority.
\<close>

lemma reschedule_effect:
  assumes inv: "kernel_inv s qs" and c: "current_task s = Some c"
    and f: "first_nonempty qs = Some p"
  shows "\<exists>s'. reschedule s = Some s'
           \<and> kernel_inv s'
               (let q0 = qs[p := tl (qs ! p)]; pc = unat (priority (task_pool s ! c))
                in q0[pc := q0 ! pc @ [c]])
           \<and> bookkeeping s' = bookkeeping (switch_records (Some c) (hd (qs ! p)) s)"
proof -
  have q: "queues_ok s qs" and ok: "tasks_ok s qs" and idle: "idle_ok s"
    using inv by (simp_all add: kernel_inv_def)
  note D = queues_okD [OF q] and T = tasks_okD [OF ok]
  note H = head_facts [OF inv f]
  have ps: "pre_switch s qs" using ok by (rule tasks_ok_pre_switch)
  define h where "h = hd (qs ! p)"
  define pc where "pc = unat (priority (task_pool s ! c))"
  have cl: "c < MAX_TASKS" and cu: "task_pool_used s ! c" using T(6,7) [OF c] by simp_all
  have crun: "state (task_pool s ! c) = TASK_RUNNING" using T(5) [OF cl cu] c by simp
  have pcl: "pc < PRIORITY_LEVELS" using T(3) [OF cl cu] by (simp add: pc_def)
  have ne: "qs ! p \<noteq> []" using f by (simp add: first_nonempty_Some)
  have cur: "\<And>k. current_task s = Some k \<Longrightarrow> k < MAX_TASKS \<and> k \<noteq> h"
    using c cl H(5) by (auto simp: h_def)
  from dispatch_ok [OF q ps f] obtain s' where
    run: "reschedule s = Some s'"
    and q': "queues_ok s' (switch_queues (current_task s) h s (qs[p := rotate1 (qs ! p)]))"
    and ok': "tasks_ok s' (switch_queues (current_task s) h s (qs[p := rotate1 (qs ! p)]))"
    and bk: "bookkeeping s' = bookkeeping (switch_records (current_task s) h s)"
    unfolding h_def by blast
  have io: "idle_ok s'" by (rule idle_ok_switch [OF idle bk D(1) H(1) [folded h_def] cur])
  have "switch_queues (current_task s) h s (qs[p := rotate1 (qs ! p)])
      = (let q1 = (qs[p := rotate1 (qs ! p)])[pc := (qs[p := rotate1 (qs ! p)]) ! pc @ [c]]
          in q1[p := remove1 (hd (qs ! p)) (q1 ! p)])"
    using c crun H(4) by (simp add: switch_queues_def requeue_def Let_def pc_def h_def)
  also have "\<dots> = (let q0 = qs[p := tl (qs ! p)] in q0[pc := q0 ! pc @ [c]])"
    using H(7) pcl D(4) ne D(6) [OF H(7)] by (intro head_out_tail_in) simp_all
  finally have eq: "switch_queues (current_task s) h s (qs[p := rotate1 (qs ! p)])
      = (let q0 = qs[p := tl (qs ! p)] in q0[pc := q0 ! pc @ [c]])" .
  have "kernel_inv s' (let q0 = qs[p := tl (qs ! p)] in q0[pc := q0 ! pc @ [c]])"
    using q' ok' io unfolding eq kernel_inv_def by simp
  then show ?thesis using run bk c unfolding h_def pc_def Let_def by auto
qed

section \<open>Two concrete kernels\<close>

lemma three_tasks_demo: "three_tasks = Some demo"
  by code_simp

lemma init_start_idle_only:
  "(case rtos_init boot of None \<Rightarrow> None | Some (_, s) \<Rightarrow> rtos_start s) = Some idle_only"
  by code_simp

lemma demo_check: "kernel_check demo"
  by code_simp

lemma idle_only_check: "kernel_check idle_only"
  by code_simp

lemma demo_queues: "queues_of demo = [[], [2, 3], [], [0]]"
  by code_simp

lemma idle_only_queues: "queues_of idle_only = [[], [], [], []]"
  by code_simp

lemma demo_ok: "kernel_ok demo"
  by (rule kernel_check_ok [OF demo_check])

lemma idle_only_ok: "kernel_ok idle_only"
  by (rule kernel_check_ok [OF idle_only_check])

section \<open>The dispatcher's selection\<close>

text \<open>
  C4, as stated, fails: \<open>scheduler_get_next_task\<close> does not dequeue.  On \<open>demo\<close> it returns
  slot 2, the head of queue 1, and slot 2 is still a member of that queue afterwards, now as
  its last element.
\<close>

theorem select_next_keeps_task_linked:
  "(case scheduler_get_next_task demo of
      None \<Rightarrow> False
    | Some (r, s') \<Rightarrow>
        r = Some 2 \<and> queue_of demo 1 = [2, 3] \<and> queue_of s' 1 = [3, 2]
        \<and> 2 \<in> set (queue_of s' 1))"
  by code_simp

text \<open>
  C4, amended.  \<open>scheduler_get_next_task\<close> scans the priorities from 0 upwards and returns
  the head of the first non-empty ready queue.  It does not unlink the task: it moves the
  head pointer of that queue to the task's successor, so the queue is rotated by one (the
  former second element is the new head, the returned task the last element; a queue of one
  element is as before) and nothing else changes.  When every ready queue is empty it
  returns the idle task, changes nothing and does not fault.
\<close>

theorem select_next_rotates:
  "((\<forall>p<PRIORITY_LEVELS. ready_queues s ! p = None) \<longrightarrow>
      scheduler_get_next_task s = Some (idle_task s, s))
   \<and> (queues_ok s (queues_of s) \<longrightarrow>
        (case first_nonempty (queues_of s) of
           None \<Rightarrow> scheduler_get_next_task s = Some (idle_task s, s)
         | Some p \<Rightarrow>
             scheduler_get_next_task s =
               Some (Some (hd (queues_of s ! p)),
                     s\<lparr>ready_queues :=
                         (ready_queues s)[p := head_of (rotate1 (queues_of s ! p))]\<rparr>)
             \<and> queues_of (s\<lparr>ready_queues :=
                              (ready_queues s)[p := head_of (rotate1 (queues_of s ! p))]\<rparr>)
                 = (queues_of s)[p := rotate1 (queues_of s ! p)]))"
proof (intro conjI impI)
  assume "\<forall>p<PRIORITY_LEVELS. ready_queues s ! p = None"
  then show "scheduler_get_next_task s = Some (idle_task s, s)" by (rule get_next_none)
next
  assume q: "queues_ok s (queues_of s)"
  show "case first_nonempty (queues_of s) of
           None \<Rightarrow> scheduler_get_next_task s = Some (idle_task s, s)
         | Some p \<Rightarrow>
             scheduler_get_next_task s =
               Some (Some (hd (queues_of s ! p)),
                     s\<lparr>ready_queues :=
                         (ready_queues s)[p := head_of (rotate1 (queues_of s ! p))]\<rparr>)
             \<and> queues_of (s\<lparr>ready_queues :=
                              (ready_queues s)[p := head_of (rotate1 (queues_of s ! p))]\<rparr>)
                 = (queues_of s)[p := rotate1 (queues_of s ! p)]"
  proof (cases "first_nonempty (queues_of s)")
    case None
    then show ?thesis using queues_ok_next_none(1) [OF q None] by simp
  next
    case (Some p)
    note N = queues_ok_next_some [OF q Some]
    show ?thesis
      using Some N(1) queues_of_unique [OF N(2)] by (simp add: advance_def)
  qed
qed

theorem select_next_rotates_witness:
  "ready_queues idle_only = [None, None, None, None]
   \<and> scheduler_get_next_task idle_only = Some (Some 0, idle_only)
   \<and> queues_ok demo (queues_of demo)
   \<and> first_nonempty (queues_of demo) = Some 1
   \<and> scheduler_get_next_task demo =
       Some (Some 2, demo\<lparr>ready_queues := [None, Some 3, None, Some 0]\<rparr>)
   \<and> queues_of (demo\<lparr>ready_queues := [None, Some 3, None, Some 0]\<rparr>) = [[], [3, 2], [], [0]]"
proof -
  have e: "\<forall>p<PRIORITY_LEVELS. ready_queues idle_only ! p = None"
    by (simp add: idle_only_def PRIORITY_LEVELS_def less_Suc_eq eval_nat_numeral)
  have q: "queues_ok demo (queues_of demo)"
    using kernel_okD [OF demo_ok] by (simp add: kernel_inv_def)
  have f: "first_nonempty (queues_of demo) = Some 1"
    unfolding demo_queues by code_simp
  have r: "(ready_queues demo)[1 := head_of (rotate1 (queues_of demo ! 1))]
             = [None, Some 3, None, Some 0]"
    unfolding demo_queues by (simp add: demo_def)
  have i: "idle_task idle_only = Some 0" by (simp add: idle_only_def)
  from select_next_rotates [of idle_only] e i
  have a: "scheduler_get_next_task idle_only = Some (Some 0, idle_only)" by simp
  from select_next_rotates [of demo] q f r
  have b: "scheduler_get_next_task demo =
       Some (Some 2, demo\<lparr>ready_queues := [None, Some 3, None, Some 0]\<rparr>)
     \<and> queues_of (demo\<lparr>ready_queues := [None, Some 3, None, Some 0]\<rparr>) = [[], [3, 2], [], [0]]"
    by (simp add: demo_queues)
  show ?thesis using a b q f by (simp add: idle_only_def)
qed

section \<open>The tick\<close>

lemma tick_slice_nth:
  "c < length (task_pool s) \<Longrightarrow>
     time_slice_remaining (task_pool (tick_slice c s) ! c) =
       (if 0 < time_slice_remaining (task_pool s ! c)
        then time_slice_remaining (task_pool s ! c) - 1
        else time_slice_remaining (task_pool s ! c))"
  by (simp add: tick_slice_def tcb_upd_nth)

lemma demo_tick9_reached: "ticks 9 demo = Some demo_tick9"
  by code_simp

lemma demo_tick9_ok: "kernel_ok demo_tick9"
proof -
  have "kernel_check demo_tick9" by code_simp
  then show ?thesis by (rule kernel_check_ok)
qed

lemma demo_urgent_ok: "kernel_ok demo_urgent"
proof -
  have "kernel_check demo_urgent" by code_simp
  then show ?thesis by (rule kernel_check_ok)
qed

lemma ex_below_MAX_TASKS:
  "(\<exists>t<MAX_TASKS. P t) \<longleftrightarrow> list_ex P [0..<MAX_TASKS]"
  by (auto simp: list_ex_iff)

text \<open>
  C3.  In a tick with the scheduler running and a current task \<open>c\<close>, let \<open>s3\<close> be the state
  after the counters, the decrement of the time slice and the wake sweep; \<open>c\<close> is still the
  current task there.  The tick reschedules (\<open>scheduler_get_next_task\<close>, then
  \<open>context_switch\<close>) exactly when the remaining slice of \<open>c\<close> is zero after the decrement,
  or some ready task has a priority strictly higher (numerically smaller) than that of
  \<open>c\<close>; a ready task of equal priority does not satisfy the second test.  When it
  reschedules and some ready queue is not empty, the head \<open>h\<close> of the first non-empty queue
  becomes the current task, running with a full time slice, \<open>c\<close> becomes ready, the
  context-switch counter grows by one, \<open>h\<close> has left the head of its queue and \<open>c\<close> has
  joined the tail of the queue of its priority.  When it reschedules and every queue is
  empty, \<open>c\<close> is the idle task and nothing changes.  When it does not reschedule, the
  tick ends in \<open>s3\<close>: \<open>c\<close> stays the current task and no switch is counted.
\<close>

theorem tick_reschedules_iff:
  assumes "kernel_ok s" and "scheduler_running s" and "current_task s = Some c"
  shows "\<exists>s3 s'. wake_sleeping_tasks (tick_slice c (tick_count s)) = Some s3
           \<and> time_slice_remaining (task_pool s3 ! c) =
               (if 0 < time_slice_remaining (task_pool s ! c)
                then time_slice_remaining (task_pool s ! c) - 1
                else time_slice_remaining (task_pool s ! c))
           \<and> kernel_ok s3 \<and> current_task s3 = Some c
           \<and> total_context_switches (stats s3) = total_context_switches (stats s)
           \<and> scheduler_tick s =
               (if time_slice_remaining (task_pool s3 ! c) = 0
                   \<or> (\<exists>t<MAX_TASKS. task_pool_used s3 ! t \<and> state (task_pool s3 ! t) = TASK_READY
                         \<and> priority (task_pool s3 ! t) < priority (task_pool s3 ! c))
                then reschedule s3 else Some s3)
           \<and> scheduler_tick s = Some s' \<and> kernel_ok s'
           \<and> (if time_slice_remaining (task_pool s3 ! c) = 0
                   \<or> (\<exists>t<MAX_TASKS. task_pool_used s3 ! t \<and> state (task_pool s3 ! t) = TASK_READY
                         \<and> priority (task_pool s3 ! t) < priority (task_pool s3 ! c))
               then reschedule s3 = Some s'
                  \<and> (case first_nonempty (queues_of s3) of
                        None \<Rightarrow> s' = s3 \<and> idle_task s3 = Some c
                      | Some p \<Rightarrow>
                          hd (queues_of s3 ! p) \<noteq> c
                          \<and> current_task s' = Some (hd (queues_of s3 ! p))
                          \<and> state (task_pool s' ! hd (queues_of s3 ! p)) = TASK_RUNNING
                          \<and> time_slice_remaining (task_pool s' ! hd (queues_of s3 ! p))
                              = of_nat TIME_SLICE_MS
                          \<and> state (task_pool s' ! c) = TASK_READY
                          \<and> total_context_switches (stats s')
                              = total_context_switches (stats s3) + 1
                          \<and> queues_of s' =
                              (let q0 = (queues_of s3)[p := tl (queues_of s3 ! p)];
                                   pc = unat (priority (task_pool s3 ! c))
                               in q0[pc := q0 ! pc @ [c]]))
               else s' = s3)"
proof -
  have inv: "kernel_inv s (queues_of s)" using assms(1) by (rule kernel_okD)
  have len: "length (task_pool s) = MAX_TASKS"
    using inv by (simp add: kernel_inv_def queues_ok_def)
  have cl: "c < MAX_TASKS" using inv assms(3) by (auto simp: kernel_inv_def tasks_ok_def)
  let ?x = "tick_slice c (tick_count s)"
  from tick_effect [OF inv assms(2,3)] obtain s3 qs3 where
    w: "wake_sleeping_tasks ?x = Some s3" and inv3: "kernel_inv s3 qs3"
    and bk3: "bookkeeping s3 = bookkeeping (fold wake_records [0..<MAX_TASKS] ?x)"
    and tick: "scheduler_tick s =
               (if time_slice_remaining (task_pool s3 ! c) = 0
                   \<or> (\<exists>t<MAX_TASKS. task_pool_used s3 ! t \<and> state (task_pool s3 ! t) = TASK_READY
                         \<and> priority (task_pool s3 ! t) < priority (task_pool s3 ! c))
                then reschedule s3 else Some s3)"
    by blast
  define need where "need \<longleftrightarrow> time_slice_remaining (task_pool s3 ! c) = 0
                   \<or> (\<exists>t<MAX_TASKS. task_pool_used s3 ! t \<and> state (task_pool s3 ! t) = TASK_READY
                         \<and> priority (task_pool s3 ! t) < priority (task_pool s3 ! c))"
  have tick': "scheduler_tick s = (if need then reschedule s3 else Some s3)"
    using tick unfolding need_def .
  have lx: "length (task_pool ?x) = MAX_TASKS" using len by simp
  note W = sweep_view [OF bk3 lx]
  have ok3: "kernel_ok s3" using inv3 by (rule kernel_okI)
  have inv3': "kernel_inv s3 (queues_of s3)" using ok3 by (rule kernel_okD)
  have c3: "current_task s3 = Some c" using W(1) assms(3) by simp
  have l3: "length (task_pool s3) = MAX_TASKS"
    using inv3 by (simp add: kernel_inv_def queues_ok_def)
  have cs3: "total_context_switches (stats s3) = total_context_switches (stats s)"
    using W(6) by (simp add: tick_count_def)
  have "time_slice_remaining (task_pool s3 ! c) = time_slice_remaining (task_pool ?x ! c)"
    using W(10) [OF cl] .
  also have "\<dots> = (if 0 < time_slice_remaining (task_pool s ! c)
                then time_slice_remaining (task_pool s ! c) - 1
                else time_slice_remaining (task_pool s ! c))"
    using tick_slice_nth [of c "tick_count s"] cl len by simp
  finally have sl: "time_slice_remaining (task_pool s3 ! c) =
               (if 0 < time_slice_remaining (task_pool s ! c)
                then time_slice_remaining (task_pool s ! c) - 1
                else time_slice_remaining (task_pool s ! c))" .
  have ok: "tasks_ok s3 (queues_of s3)" using inv3' by (simp add: kernel_inv_def)
  note T = tasks_okD [OF ok]
  have cu: "task_pool_used s3 ! c" using T(7) [OF c3] .
  have crun: "state (task_pool s3 ! c) = TASK_RUNNING" using T(5) [OF cl cu] c3 by simp
  have res: "\<exists>s'. reschedule s3 = Some s' \<and> kernel_ok s'
      \<and> (case first_nonempty (queues_of s3) of
            None \<Rightarrow> s' = s3 \<and> idle_task s3 = Some c
          | Some p \<Rightarrow>
              hd (queues_of s3 ! p) \<noteq> c
              \<and> current_task s' = Some (hd (queues_of s3 ! p))
              \<and> state (task_pool s' ! hd (queues_of s3 ! p)) = TASK_RUNNING
              \<and> time_slice_remaining (task_pool s' ! hd (queues_of s3 ! p))
                  = of_nat TIME_SLICE_MS
              \<and> state (task_pool s' ! c) = TASK_READY
              \<and> total_context_switches (stats s')
                  = total_context_switches (stats s3) + 1
              \<and> queues_of s' =
                  (let q0 = (queues_of s3)[p := tl (queues_of s3 ! p)];
                       pc = unat (priority (task_pool s3 ! c))
                   in q0[pc := q0 ! pc @ [c]]))"
  proof (cases "first_nonempty (queues_of s3)")
    case None
    from reschedule_running [OF inv3' c3] None have r: "reschedule s3 = Some s3" by auto
    have q3: "queues_ok s3 (queues_of s3)" using inv3' by (simp add: kernel_inv_def)
    have "scheduler_get_next_task s3 = Some (idle_task s3, s3)"
      using queues_ok_next_none(1) [OF q3 None] .
    have io: "idle_ok s3" using inv3' by (simp add: kernel_inv_def)
    obtain i where id: "idle_task s3 = Some i" and il: "i < MAX_TASKS"
      and iu: "task_pool_used s3 ! i"
      and ist: "state (task_pool s3 ! i) = TASK_READY \<or> state (task_pool s3 ! i) = TASK_RUNNING"
      using io by (auto simp: idle_ok_def split: option.splits)
    have "state (task_pool s3 ! i) \<noteq> TASK_READY"
      using ready_queued [OF tasks_ok_pre_switch [OF ok] il iu] None by auto
    then have "i = c" using ist T(5) [OF il iu] c3 by auto
    then show ?thesis using r ok3 None id by simp
  next
    case (Some p)
    define h where "h = hd (queues_of s3 ! p)"
    note H = head_facts [OF inv3' Some, folded h_def]
    from reschedule_effect [OF inv3' c3 Some] obtain s' where
      r: "reschedule s3 = Some s'"
      and inv': "kernel_inv s'
               (let q0 = (queues_of s3)[p := tl (queues_of s3 ! p)];
                    pc = unat (priority (task_pool s3 ! c))
                in q0[pc := q0 ! pc @ [c]])"
      and bk: "bookkeeping s' = bookkeeping (switch_records (Some c) h s3)"
      unfolding h_def by blast
    have hc: "h \<noteq> c" using H(5) c3 by auto
    have curc: "\<forall>k. Some c = Some k \<longrightarrow> k < MAX_TASKS \<and> k \<noteq> h" using cl hc by auto
    note S = switch_view [OF bk l3 H(1) curc]
    have qs': "queues_of s' =
               (let q0 = (queues_of s3)[p := tl (queues_of s3 ! p)];
                    pc = unat (priority (task_pool s3 ! c))
                in q0[pc := q0 ! pc @ [c]])"
      using inv' by (intro queues_of_unique) (simp add: kernel_inv_def)
    have a: "current_task s' = Some h" "state (task_pool s' ! h) = TASK_RUNNING"
      "time_slice_remaining (task_pool s' ! h) = of_nat TIME_SLICE_MS"
      "state (task_pool s' ! c) = TASK_READY"
      "total_context_switches (stats s') = total_context_switches (stats s3) + 1"
      using S(1) S(7) [OF H(1)] S(10) [OF H(1)] S(7) [OF cl] S(6) hc crun by simp_all
    have "kernel_ok s'" using inv' by (rule kernel_okI)
    then show ?thesis using r Some hc a qs' unfolding h_def by simp
  qed
  have "\<exists>s'. scheduler_tick s = Some s' \<and> kernel_ok s'
      \<and> (if need then reschedule s3 = Some s'
          \<and> (case first_nonempty (queues_of s3) of
            None \<Rightarrow> s' = s3 \<and> idle_task s3 = Some c
          | Some p \<Rightarrow>
              hd (queues_of s3 ! p) \<noteq> c
              \<and> current_task s' = Some (hd (queues_of s3 ! p))
              \<and> state (task_pool s' ! hd (queues_of s3 ! p)) = TASK_RUNNING
              \<and> time_slice_remaining (task_pool s' ! hd (queues_of s3 ! p))
                  = of_nat TIME_SLICE_MS
              \<and> state (task_pool s' ! c) = TASK_READY
              \<and> total_context_switches (stats s')
                  = total_context_switches (stats s3) + 1
              \<and> queues_of s' =
                  (let q0 = (queues_of s3)[p := tl (queues_of s3 ! p)];
                       pc = unat (priority (task_pool s3 ! c))
                   in q0[pc := q0 ! pc @ [c]]))
          else s' = s3)"
  proof (cases need)
    case True
    from res obtain s' where "reschedule s3 = Some s'" "kernel_ok s'"
      "(case first_nonempty (queues_of s3) of
            None \<Rightarrow> s' = s3 \<and> idle_task s3 = Some c
          | Some p \<Rightarrow>
              hd (queues_of s3 ! p) \<noteq> c
              \<and> current_task s' = Some (hd (queues_of s3 ! p))
              \<and> state (task_pool s' ! hd (queues_of s3 ! p)) = TASK_RUNNING
              \<and> time_slice_remaining (task_pool s' ! hd (queues_of s3 ! p))
                  = of_nat TIME_SLICE_MS
              \<and> state (task_pool s' ! c) = TASK_READY
              \<and> total_context_switches (stats s')
                  = total_context_switches (stats s3) + 1
              \<and> queues_of s' =
                  (let q0 = (queues_of s3)[p := tl (queues_of s3 ! p)];
                       pc = unat (priority (task_pool s3 ! c))
                   in q0[pc := q0 ! pc @ [c]]))" by blast
    then show ?thesis using True tick' by (intro exI [of _ s']) simp
  next
    case False
    then show ?thesis using tick' ok3 by simp
  qed
  then show ?thesis using w sl ok3 c3 cs3 tick unfolding need_def by blast
qed

lemma demo_sweep:
  "wake_sleeping_tasks (tick_slice 1 (tick_count demo)) = Some (tick_slice 1 (tick_count demo))"
  by code_simp

lemma demo_need:
  "\<not> (time_slice_remaining (task_pool (tick_slice 1 (tick_count demo)) ! 1) = 0
     \<or> list_ex (\<lambda>t. task_pool_used (tick_slice 1 (tick_count demo)) ! t
                     \<and> state (task_pool (tick_slice 1 (tick_count demo)) ! t) = TASK_READY
                     \<and> priority (task_pool (tick_slice 1 (tick_count demo)) ! t) < priority (task_pool (tick_slice 1 (tick_count demo)) ! 1))
          [0..<MAX_TASKS])"
  by code_simp

lemma demo_tick9_sweep:
  "wake_sleeping_tasks (tick_slice 1 (tick_count demo_tick9)) = Some (tick_slice 1 (tick_count demo_tick9))"
  by code_simp

lemma demo_tick9_need:
  "time_slice_remaining (task_pool (tick_slice 1 (tick_count demo_tick9)) ! 1) = 0
     \<or> list_ex (\<lambda>t. task_pool_used (tick_slice 1 (tick_count demo_tick9)) ! t
                     \<and> state (task_pool (tick_slice 1 (tick_count demo_tick9)) ! t) = TASK_READY
                     \<and> priority (task_pool (tick_slice 1 (tick_count demo_tick9)) ! t) < priority (task_pool (tick_slice 1 (tick_count demo_tick9)) ! 1))
          [0..<MAX_TASKS]"
  by code_simp

lemma demo_urgent_sweep:
  "wake_sleeping_tasks (tick_slice 1 (tick_count demo_urgent)) = Some (tick_slice 1 (tick_count demo_urgent))"
  by code_simp

lemma demo_urgent_need:
  "time_slice_remaining (task_pool (tick_slice 1 (tick_count demo_urgent)) ! 1) = 0
     \<or> list_ex (\<lambda>t. task_pool_used (tick_slice 1 (tick_count demo_urgent)) ! t
                     \<and> state (task_pool (tick_slice 1 (tick_count demo_urgent)) ! t) = TASK_READY
                     \<and> priority (task_pool (tick_slice 1 (tick_count demo_urgent)) ! t) < priority (task_pool (tick_slice 1 (tick_count demo_urgent)) ! 1))
          [0..<MAX_TASKS]"
  by code_simp

lemma demo_after_sweep:
  "current_task (tick_slice 1 (tick_count demo)) = Some 1"
  "total_context_switches (stats (tick_slice 1 (tick_count demo))) = 1"
  "time_slice_remaining (task_pool (tick_slice 1 (tick_count demo)) ! 1) = 9"
  "queues_of (tick_slice 1 (tick_count demo)) = [[], [2, 3], [], [0]]"
  by code_simp+

lemma demo_tick9_after_sweep:
  "first_nonempty (queues_of (tick_slice 1 (tick_count demo_tick9))) = Some 1"
  "queues_of (tick_slice 1 (tick_count demo_tick9)) = [[], [2, 3], [], [0]]"
  "unat (priority (task_pool (tick_slice 1 (tick_count demo_tick9)) ! 1)) = 1"
  "total_context_switches (stats (tick_slice 1 (tick_count demo_tick9))) = 1"
  by code_simp+

lemma demo_urgent_after_sweep:
  "first_nonempty (queues_of (tick_slice 1 (tick_count demo_urgent))) = Some 0"
  "queues_of (tick_slice 1 (tick_count demo_urgent)) = [[4], [2, 3], [], [0]]"
  "unat (priority (task_pool (tick_slice 1 (tick_count demo_urgent)) ! 1)) = 1"
  "total_context_switches (stats (tick_slice 1 (tick_count demo_urgent))) = 1"
  by code_simp+

lemma first_nonempty_examples:
  "first_nonempty [[], [2, 3], [], [0]] = Some 1"
  "first_nonempty [[4], [2, 3], [], [0]] = Some 0"
  by code_simp+

lemma demo_more_running:
  "scheduler_running demo_tick9" "current_task demo_tick9 = Some 1"
  "time_slice_remaining (task_pool demo_tick9 ! 1) = 1"
  "scheduler_running demo_urgent" "current_task demo_urgent = Some 1"
  "time_slice_remaining (task_pool demo_urgent ! 1) = 10"
  by code_simp+

theorem tick_reschedules_iff_witness:
  "kernel_ok demo \<and> scheduler_running demo \<and> current_task demo = Some 1
   \<and> time_slice_remaining (task_pool demo ! 1) = 10
   \<and> (\<exists>s'. scheduler_tick demo = Some s' \<and> current_task s' = Some 1
         \<and> time_slice_remaining (task_pool s' ! 1) = 9
         \<and> total_context_switches (stats s') = 1
         \<and> queues_of s' = [[], [2, 3], [], [0]])
   \<and> kernel_ok demo_tick9 \<and> scheduler_running demo_tick9 \<and> current_task demo_tick9 = Some 1
   \<and> time_slice_remaining (task_pool demo_tick9 ! 1) = 1
   \<and> (\<exists>s'. scheduler_tick demo_tick9 = Some s' \<and> current_task s' = Some 2
         \<and> state (task_pool s' ! 2) = TASK_RUNNING
         \<and> time_slice_remaining (task_pool s' ! 2) = 10
         \<and> state (task_pool s' ! 1) = TASK_READY
         \<and> total_context_switches (stats s') = 2
         \<and> queues_of s' = [[], [3, 1], [], [0]])
   \<and> kernel_ok demo_urgent \<and> scheduler_running demo_urgent \<and> current_task demo_urgent = Some 1
   \<and> time_slice_remaining (task_pool demo_urgent ! 1) = 10
   \<and> (\<exists>s'. scheduler_tick demo_urgent = Some s' \<and> current_task s' = Some 4
         \<and> state (task_pool s' ! 4) = TASK_RUNNING
         \<and> time_slice_remaining (task_pool s' ! 4) = 10
         \<and> state (task_pool s' ! 1) = TASK_READY
         \<and> total_context_switches (stats s') = 2
         \<and> queues_of s' = [[], [2, 3, 1], [], [0]])"
proof -
  have r: "scheduler_running demo" and c: "current_task demo = Some 1"
    and sl: "time_slice_remaining (task_pool demo ! 1) = 10"
    by (simp_all add: demo_def)
  note m = demo_more_running
  have a: "\<exists>s'. scheduler_tick demo = Some s' \<and> current_task s' = Some 1
         \<and> time_slice_remaining (task_pool s' ! 1) = 9
         \<and> total_context_switches (stats s') = 1
         \<and> queues_of s' = [[], [2, 3], [], [0]]"
  proof -
    from tick_reschedules_iff [OF demo_ok r c] obtain s3 s' where
      w: "wake_sleeping_tasks (tick_slice 1 (tick_count demo)) = Some s3"
      and tk: "scheduler_tick demo = Some s'"
      and body: "if time_slice_remaining (task_pool s3 ! 1) = 0
                   \<or> (\<exists>t<MAX_TASKS. task_pool_used s3 ! t \<and> state (task_pool s3 ! t) = TASK_READY
                         \<and> priority (task_pool s3 ! t) < priority (task_pool s3 ! 1))
               then reschedule s3 = Some s'
                  \<and> (case first_nonempty (queues_of s3) of
                        None \<Rightarrow> s' = s3 \<and> idle_task s3 = Some 1
                      | Some p \<Rightarrow>
                          hd (queues_of s3 ! p) \<noteq> 1
                          \<and> current_task s' = Some (hd (queues_of s3 ! p))
                          \<and> state (task_pool s' ! hd (queues_of s3 ! p)) = TASK_RUNNING
                          \<and> time_slice_remaining (task_pool s' ! hd (queues_of s3 ! p))
                              = of_nat TIME_SLICE_MS
                          \<and> state (task_pool s' ! 1) = TASK_READY
                          \<and> total_context_switches (stats s')
                              = total_context_switches (stats s3) + 1
                          \<and> queues_of s' =
                              (let q0 = (queues_of s3)[p := tl (queues_of s3 ! p)];
                                   pc = unat (priority (task_pool s3 ! 1))
                               in q0[pc := q0 ! pc @ [1]]))
               else s' = s3"
      by blast
    have s3: "s3 = tick_slice 1 (tick_count demo)" using w demo_sweep by simp
    have "s' = s3"
      using body demo_need unfolding s3 ex_below_MAX_TASKS by (simp only: if_False)
    then show ?thesis using tk demo_after_sweep unfolding s3 by simp
  qed
  have b: "\<exists>s'. scheduler_tick demo_tick9 = Some s' \<and> current_task s' = Some 2
         \<and> state (task_pool s' ! 2) = TASK_RUNNING
         \<and> time_slice_remaining (task_pool s' ! 2) = 10
         \<and> state (task_pool s' ! 1) = TASK_READY
         \<and> total_context_switches (stats s') = 2
         \<and> queues_of s' = [[], [3, 1], [], [0]]"
  proof -
    from tick_reschedules_iff [OF demo_tick9_ok m(1,2)] obtain s3 s' where
      w: "wake_sleeping_tasks (tick_slice 1 (tick_count demo_tick9)) = Some s3"
      and tk: "scheduler_tick demo_tick9 = Some s'"
      and body: "if time_slice_remaining (task_pool s3 ! 1) = 0
                   \<or> (\<exists>t<MAX_TASKS. task_pool_used s3 ! t \<and> state (task_pool s3 ! t) = TASK_READY
                         \<and> priority (task_pool s3 ! t) < priority (task_pool s3 ! 1))
               then reschedule s3 = Some s'
                  \<and> (case first_nonempty (queues_of s3) of
                        None \<Rightarrow> s' = s3 \<and> idle_task s3 = Some 1
                      | Some p \<Rightarrow>
                          hd (queues_of s3 ! p) \<noteq> 1
                          \<and> current_task s' = Some (hd (queues_of s3 ! p))
                          \<and> state (task_pool s' ! hd (queues_of s3 ! p)) = TASK_RUNNING
                          \<and> time_slice_remaining (task_pool s' ! hd (queues_of s3 ! p))
                              = of_nat TIME_SLICE_MS
                          \<and> state (task_pool s' ! 1) = TASK_READY
                          \<and> total_context_switches (stats s')
                              = total_context_switches (stats s3) + 1
                          \<and> queues_of s' =
                              (let q0 = (queues_of s3)[p := tl (queues_of s3 ! p)];
                                   pc = unat (priority (task_pool s3 ! 1))
                               in q0[pc := q0 ! pc @ [1]]))
               else s' = s3"
      by blast
    have s3: "s3 = tick_slice 1 (tick_count demo_tick9)" using w demo_tick9_sweep by simp
    have "case first_nonempty (queues_of s3) of
                        None \<Rightarrow> s' = s3 \<and> idle_task s3 = Some 1
                      | Some p \<Rightarrow>
                          hd (queues_of s3 ! p) \<noteq> 1
                          \<and> current_task s' = Some (hd (queues_of s3 ! p))
                          \<and> state (task_pool s' ! hd (queues_of s3 ! p)) = TASK_RUNNING
                          \<and> time_slice_remaining (task_pool s' ! hd (queues_of s3 ! p))
                              = of_nat TIME_SLICE_MS
                          \<and> state (task_pool s' ! 1) = TASK_READY
                          \<and> total_context_switches (stats s')
                              = total_context_switches (stats s3) + 1
                          \<and> queues_of s' =
                              (let q0 = (queues_of s3)[p := tl (queues_of s3 ! p)];
                                   pc = unat (priority (task_pool s3 ! 1))
                               in q0[pc := q0 ! pc @ [1]])"
      using body demo_tick9_need unfolding s3 ex_below_MAX_TASKS by (simp only: if_True)
    then show ?thesis
      using tk unfolding s3 demo_tick9_after_sweep
      by (simp add: first_nonempty_examples TIME_SLICE_MS_def Let_def)
  qed
  have u: "\<exists>s'. scheduler_tick demo_urgent = Some s' \<and> current_task s' = Some 4
         \<and> state (task_pool s' ! 4) = TASK_RUNNING
         \<and> time_slice_remaining (task_pool s' ! 4) = 10
         \<and> state (task_pool s' ! 1) = TASK_READY
         \<and> total_context_switches (stats s') = 2
         \<and> queues_of s' = [[], [2, 3, 1], [], [0]]"
  proof -
    from tick_reschedules_iff [OF demo_urgent_ok m(4,5)] obtain s3 s' where
      w: "wake_sleeping_tasks (tick_slice 1 (tick_count demo_urgent)) = Some s3"
      and tk: "scheduler_tick demo_urgent = Some s'"
      and body: "if time_slice_remaining (task_pool s3 ! 1) = 0
                   \<or> (\<exists>t<MAX_TASKS. task_pool_used s3 ! t \<and> state (task_pool s3 ! t) = TASK_READY
                         \<and> priority (task_pool s3 ! t) < priority (task_pool s3 ! 1))
               then reschedule s3 = Some s'
                  \<and> (case first_nonempty (queues_of s3) of
                        None \<Rightarrow> s' = s3 \<and> idle_task s3 = Some 1
                      | Some p \<Rightarrow>
                          hd (queues_of s3 ! p) \<noteq> 1
                          \<and> current_task s' = Some (hd (queues_of s3 ! p))
                          \<and> state (task_pool s' ! hd (queues_of s3 ! p)) = TASK_RUNNING
                          \<and> time_slice_remaining (task_pool s' ! hd (queues_of s3 ! p))
                              = of_nat TIME_SLICE_MS
                          \<and> state (task_pool s' ! 1) = TASK_READY
                          \<and> total_context_switches (stats s')
                              = total_context_switches (stats s3) + 1
                          \<and> queues_of s' =
                              (let q0 = (queues_of s3)[p := tl (queues_of s3 ! p)];
                                   pc = unat (priority (task_pool s3 ! 1))
                               in q0[pc := q0 ! pc @ [1]]))
               else s' = s3"
      by blast
    have s3: "s3 = tick_slice 1 (tick_count demo_urgent)" using w demo_urgent_sweep by simp
    have "case first_nonempty (queues_of s3) of
                        None \<Rightarrow> s' = s3 \<and> idle_task s3 = Some 1
                      | Some p \<Rightarrow>
                          hd (queues_of s3 ! p) \<noteq> 1
                          \<and> current_task s' = Some (hd (queues_of s3 ! p))
                          \<and> state (task_pool s' ! hd (queues_of s3 ! p)) = TASK_RUNNING
                          \<and> time_slice_remaining (task_pool s' ! hd (queues_of s3 ! p))
                              = of_nat TIME_SLICE_MS
                          \<and> state (task_pool s' ! 1) = TASK_READY
                          \<and> total_context_switches (stats s')
                              = total_context_switches (stats s3) + 1
                          \<and> queues_of s' =
                              (let q0 = (queues_of s3)[p := tl (queues_of s3 ! p)];
                                   pc = unat (priority (task_pool s3 ! 1))
                               in q0[pc := q0 ! pc @ [1]])"
      using body demo_urgent_need unfolding s3 ex_below_MAX_TASKS by (simp only: if_True)
    then show ?thesis
      using tk unfolding s3 demo_urgent_after_sweep
      by (simp add: first_nonempty_examples TIME_SLICE_MS_def Let_def)
  qed
  show ?thesis
    using demo_ok r c sl a demo_tick9_ok m(1,2,3) b demo_urgent_ok m(4,5,6) u
    by (intro conjI)
qed

text \<open>
  C9.  Every tick adds one to the tick counter and to the tick statistic (32-bit
  addition).  The remaining time slice of the current task is decremented when it is
  positive and is left at zero otherwise, so it never grows.  When the scheduler is not
  running or there is no current task, the tick changes the two counters and nothing else.
\<close>

theorem tick_counters:
  "(\<not> scheduler_running s \<or> current_task s = None \<longrightarrow>
      scheduler_tick s =
        Some (s\<lparr>system_tick_count := system_tick_count s + 1,
                stats := (stats s)\<lparr>total_ticks := total_ticks (stats s) + 1\<rparr>\<rparr>))
   \<and> (kernel_ok s \<longrightarrow>
        (\<exists>s'. scheduler_tick s = Some s'
           \<and> system_tick_count s' = system_tick_count s + 1
           \<and> total_ticks (stats s') = total_ticks (stats s) + 1
           \<and> (\<forall>c. scheduler_running s \<and> current_task s = Some c \<longrightarrow>
                 time_slice_remaining (task_pool s' ! c) =
                   (if 0 < time_slice_remaining (task_pool s ! c)
                    then time_slice_remaining (task_pool s ! c) - 1 else 0)
                 \<and> unat (time_slice_remaining (task_pool s' ! c))
                     \<le> unat (time_slice_remaining (task_pool s ! c)))))"
proof (intro conjI impI)
  assume "\<not> scheduler_running s \<or> current_task s = None"
  then show "scheduler_tick s =
        Some (s\<lparr>system_tick_count := system_tick_count s + 1,
                stats := (stats s)\<lparr>total_ticks := total_ticks (stats s) + 1\<rparr>\<rparr>)"
    by (auto simp: scheduler_tick_def tick_count_def Let_def)
next
  assume k: "kernel_ok s"
  have inv: "kernel_inv s (queues_of s)" using k by (rule kernel_okD)
  have len: "length (task_pool s) = MAX_TASKS"
    using inv by (simp add: kernel_inv_def queues_ok_def)
  show "\<exists>s'. scheduler_tick s = Some s'
           \<and> system_tick_count s' = system_tick_count s + 1
           \<and> total_ticks (stats s') = total_ticks (stats s) + 1
           \<and> (\<forall>c. scheduler_running s \<and> current_task s = Some c \<longrightarrow>
                 time_slice_remaining (task_pool s' ! c) =
                   (if 0 < time_slice_remaining (task_pool s ! c)
                    then time_slice_remaining (task_pool s ! c) - 1 else 0)
                 \<and> unat (time_slice_remaining (task_pool s' ! c))
                     \<le> unat (time_slice_remaining (task_pool s ! c)))"
  proof (cases "scheduler_running s \<and> current_task s \<noteq> None")
    case False
    then have "scheduler_tick s = Some (tick_count s)"
      by (auto simp: scheduler_tick_def tick_count_def Let_def)
    then show ?thesis using False by (auto simp: tick_count_def)
  next
    case True
    then obtain c where run: "scheduler_running s" and c: "current_task s = Some c" by auto
    have cl: "c < MAX_TASKS" using inv c by (auto simp: kernel_inv_def tasks_ok_def)
    let ?x = "tick_slice c (tick_count s)"
    from tick_effect [OF inv run c] obtain s3 qs3 s' where
      inv3: "kernel_inv s3 qs3"
      and bk3: "bookkeeping s3 = bookkeeping (fold wake_records [0..<MAX_TASKS] ?x)"
      and tick: "scheduler_tick s = Some s'"
      and eff: "s' = s3 \<or> (\<exists>p. first_nonempty qs3 = Some p
                  \<and> bookkeeping s' = bookkeeping (switch_records (Some c) (hd (qs3 ! p)) s3))"
      by blast
    have lx: "length (task_pool ?x) = MAX_TASKS" using len by simp
    note W = sweep_view [OF bk3 lx]
    have l3: "length (task_pool s3) = MAX_TASKS"
      using inv3 by (simp add: kernel_inv_def queues_ok_def)
    have t3: "system_tick_count s3 = system_tick_count s + 1"
      and st3: "total_ticks (stats s3) = total_ticks (stats s) + 1"
      using W(4,6) by (simp_all add: tick_count_def)
    have sl3: "time_slice_remaining (task_pool s3 ! c) =
                   (if 0 < time_slice_remaining (task_pool s ! c)
                    then time_slice_remaining (task_pool s ! c) - 1 else 0)"
      using W(10) [OF cl] tick_slice_nth [of c "tick_count s"] cl len
      by (auto simp: word_gt_0)
    have fin: "system_tick_count s' = system_tick_count s3
        \<and> total_ticks (stats s') = total_ticks (stats s3)
        \<and> time_slice_remaining (task_pool s' ! c) = time_slice_remaining (task_pool s3 ! c)"
      using eff
    proof
      assume "s' = s3"
      then show ?thesis by simp
    next
      assume "\<exists>p. first_nonempty qs3 = Some p
                  \<and> bookkeeping s' = bookkeeping (switch_records (Some c) (hd (qs3 ! p)) s3)"
      then obtain p where f: "first_nonempty qs3 = Some p"
        and bk: "bookkeeping s' = bookkeeping (switch_records (Some c) (hd (qs3 ! p)) s3)"
        by blast
      note H = head_facts [OF inv3 f]
      have ne: "c \<noteq> hd (qs3 ! p)" using H(5) W(1) c by auto
      then have k: "\<forall>k. Some c = Some k \<longrightarrow> k < MAX_TASKS \<and> k \<noteq> hd (qs3 ! p)"
        using cl by auto
      note S = switch_view [OF bk l3 H(1) k]
      show ?thesis using S(4,6) S(10) [OF cl] ne by simp
    qed
    have "unat (time_slice_remaining (task_pool s' ! c))
                     \<le> unat (time_slice_remaining (task_pool s ! c))"
      using fin sl3 by (auto simp: word_gt_0 unat_minus_one)
    then show ?thesis using tick fin t3 st3 sl3 c by auto
  qed
qed

theorem tick_counters_witness:
  "\<not> scheduler_running boot
   \<and> scheduler_tick boot =
       Some (boot\<lparr>system_tick_count := 1, stats := (stats boot)\<lparr>total_ticks := 1\<rparr>\<rparr>)
   \<and> kernel_ok demo \<and> scheduler_running demo \<and> current_task demo = Some 1
   \<and> (\<exists>s'. scheduler_tick demo = Some s' \<and> system_tick_count s' = 1
         \<and> total_ticks (stats s') = 1 \<and> time_slice_remaining (task_pool s' ! 1) = 9)"
proof -
  have nr: "\<not> scheduler_running boot" by (simp add: boot_def)
  have b: "system_tick_count boot = 0" "total_ticks (stats boot) = 0"
    by (simp_all add: boot_def zero_stats_def)
  have r: "scheduler_running demo" and c: "current_task demo = Some 1"
    and d: "system_tick_count demo = 0" "total_ticks (stats demo) = 0"
      "time_slice_remaining (task_pool demo ! 1) = 10"
    by (simp_all add: demo_def)
  from tick_counters [of boot] nr b
  have 1: "scheduler_tick boot =
       Some (boot\<lparr>system_tick_count := 1, stats := (stats boot)\<lparr>total_ticks := 1\<rparr>\<rparr>)"
    by simp
  from tick_counters [of demo] demo_ok r c d
  have 2: "\<exists>s'. scheduler_tick demo = Some s' \<and> system_tick_count s' = 1
         \<and> total_ticks (stats s') = 1 \<and> time_slice_remaining (task_pool s' ! 1) = 9"
    by auto
  show ?thesis using nr 1 2 demo_ok r c by simp
qed

section \<open>One running task\<close>

text \<open>
  C6, as stated, fails for \<open>sleep\<close>.  After \<^verbatim>\<open>rtos_init\<close> and \<^verbatim>\<open>rtos_start\<close> the idle
  task runs and every queue is empty; when the running task then calls \<^verbatim>\<open>task_sleep(5)\<close>,
  \<open>scheduler_get_next_task\<close> falls back to the idle task itself, \<open>context_switch\<close> sees
  equal arguments and returns, and no task is left in state \<open>TASK_RUNNING\<close>: the current
  task is blocked.
\<close>

theorem sleeping_idle_task_leaves_none_running:
  "(case rtos_init boot of
      None \<Rightarrow> False
    | Some (_, s0) \<Rightarrow>
        (case rtos_start s0 of
           None \<Rightarrow> False
         | Some s1 \<Rightarrow>
             (case task_sleep 5 s1 of
                None \<Rightarrow> False
              | Some s2 \<Rightarrow>
                  scheduler_running s2 \<and> current_task s2 = Some 0
                  \<and> state (task_pool s2 ! 0) = TASK_BLOCKED
                  \<and> filter (\<lambda>t. task_pool_used s2 ! t \<and> state (task_pool s2 ! t) = TASK_RUNNING)
                       [0..<MAX_TASKS] = [])))"
  by code_simp

text \<open>
  C6, amended.  On a well-formed kernel, once a task has been dispatched, after every
  scheduler operation (create, tick, yield, sleep called by a task other than the idle
  task, the dispatcher's switch, the wake sweep), and after \<^verbatim>\<open>rtos_start\<close> itself, the
  kernel is well formed again, there is a current task, and among the tasks of the pool
  exactly the current one has state \<open>TASK_RUNNING\<close>.
\<close>

theorem one_running_task:
  assumes "kernel_ok s" and "allowed op s" and "op = Start \<or> current_task s \<noteq> None"
  shows "\<exists>s' c. step op s = Some s' \<and> kernel_ok s' \<and> current_task s' = Some c
           \<and> c < MAX_TASKS \<and> task_pool_used s' ! c
           \<and> (\<forall>t<MAX_TASKS. task_pool_used s' ! t \<longrightarrow>
                 (state (task_pool s' ! t) = TASK_RUNNING) = (t = c))"
proof -
  from step_ok [OF kernel_okD [OF assms(1)] assms(2)] assms(3)
  obtain s' qs' c where st: "step op s = Some s'" and inv: "kernel_inv s' qs'"
    and c: "current_task s' = Some c" by auto
  have ok: "tasks_ok s' qs'" using inv by (simp add: kernel_inv_def)
  note T = tasks_okD [OF ok]
  have "\<forall>t<MAX_TASKS. task_pool_used s' ! t \<longrightarrow>
          (state (task_pool s' ! t) = TASK_RUNNING) = (t = c)"
    using T(5) c by auto
  then show ?thesis using st kernel_okI [OF inv] c T(6,7) [OF c] by blast
qed

theorem one_running_task_witness:
  "kernel_ok demo \<and> allowed (Sleep 5) demo \<and> current_task demo = Some 1
   \<and> (\<exists>s' c. step (Sleep 5) demo = Some s' \<and> kernel_ok s' \<and> current_task s' = Some c
         \<and> c < MAX_TASKS \<and> task_pool_used s' ! c
         \<and> (\<forall>t<MAX_TASKS. task_pool_used s' ! t \<longrightarrow>
               (state (task_pool s' ! t) = TASK_RUNNING) = (t = c)))"
proof -
  have a: "allowed (Sleep 5) demo" and c: "current_task demo = Some 1"
    by (simp_all add: demo_def)
  from one_running_task [OF demo_ok a] c show ?thesis using demo_ok a by simp
qed

section \<open>Single membership in the ready queues\<close>

text \<open>
  C7, as stated, fails in its last part: \<open>add_task_to_ready_queue\<close> never unlinks.  On
  \<open>demo\<close>, queue 1 is \<open>[2, 3]\<close>; enqueuing slot 2 again overwrites its links, the queue read
  from the head is \<open>[2]\<close> and slot 3, still ready and with its links pointing into the
  list, is in no queue any more.
\<close>

theorem enqueue_does_not_unlink:
  "(case add_task_to_ready_queue 2 demo of
      None \<Rightarrow> False
    | Some s' \<Rightarrow>
        queues_of demo = [[], [2, 3], [], [0]] \<and> queues_of s' = [[], [2], [], [0]]
        \<and> task_pool_used s' ! 3 \<and> state (task_pool s' ! 3) = TASK_READY
        \<and> next_ptr (task_pool s' ! 3) = Some 2 \<and> prev_ptr (task_pool s' ! 3) = Some 2
        \<and> \<not> kernel_check s')"
  by code_simp

text \<open>
  C7, amended.  On a well-formed kernel, after every mutating scheduler operation (create,
  start, tick, yield, sleep called by a task other than the idle task, the dispatcher's
  switch, the wake sweep) the ready queues are well-formed circular lists again, no task
  appears twice in a queue and no task is in two queues.  The enqueue itself does not
  unlink: the operations only ever enqueue a task that is in no queue.
\<close>

theorem queues_single_membership:
  assumes "kernel_ok s" and "allowed op s"
  shows "\<exists>s'. step op s = Some s' \<and> queues_ok s' (queues_of s')
           \<and> (\<forall>p<PRIORITY_LEVELS. distinct (queues_of s' ! p))
           \<and> (\<forall>p<PRIORITY_LEVELS. \<forall>q<PRIORITY_LEVELS. p \<noteq> q \<longrightarrow>
                 set (queues_of s' ! p) \<inter> set (queues_of s' ! q) = {})"
proof -
  from step_ok [OF kernel_okD [OF assms(1)] assms(2)]
  obtain s' qs' where st: "step op s = Some s'" and inv: "kernel_inv s' qs'" by blast
  have q: "queues_ok s' qs'" using inv by (simp add: kernel_inv_def)
  have qs: "queues_of s' = qs'" using q by (rule queues_of_unique)
  note D = queues_okD [OF q]
  have "\<forall>p<PRIORITY_LEVELS. distinct (qs' ! p)" using D(6) by simp
  moreover have "\<forall>p<PRIORITY_LEVELS. \<forall>q<PRIORITY_LEVELS. p \<noteq> q \<longrightarrow>
                 set (qs' ! p) \<inter> set (qs' ! q) = {}"
    using D(9) by blast
  ultimately show ?thesis using st q qs by auto
qed

theorem queues_single_membership_witness:
  "kernel_ok demo \<and> allowed Tick demo
   \<and> (\<exists>s'. step Tick demo = Some s' \<and> queues_ok s' (queues_of s')
         \<and> (\<forall>p<PRIORITY_LEVELS. distinct (queues_of s' ! p))
         \<and> (\<forall>p<PRIORITY_LEVELS. \<forall>q<PRIORITY_LEVELS. p \<noteq> q \<longrightarrow>
               set (queues_of s' ! p) \<inter> set (queues_of s' ! q) = {}))"
proof -
  have a: "allowed Tick demo" by simp
  from queues_single_membership [OF demo_ok a] show ?thesis using demo_ok a by simp
qed

section \<open>The context switch\<close>

text \<open>
  C8.  \<open>context_switch\<close> with equal arguments changes nothing.  Otherwise, for a task
  \<open>to\<close> that waits in the ready queue of its priority \<open>p\<close> and a task \<open>from\<close> that is in no
  queue while it runs, the switch adds one to the context-switch counter, makes \<open>to\<close> the
  current task in state \<open>TASK_RUNNING\<close> with a fresh time slice and removes it from its
  queue; it records the tick in \<open>from\<close>'s \<open>last_run_time\<close>; and if \<open>from\<close> was running it
  credits one unit of runtime, makes it ready and appends it to the tail of its priority's
  queue, while a \<open>from\<close> in any other state (blocked, suspended, terminated) keeps its
  state and runtime and is not enqueued.
\<close>

theorem context_switch_effect:
  assumes "queues_ok s (queues_of s)" and "p < PRIORITY_LEVELS"
    and "to \<in> set (queues_of s ! p)"
    and "\<forall>f. cur = Some f \<longrightarrow> f < MAX_TASKS \<and> f \<noteq> to \<and>
           (state (task_pool s ! f) = TASK_RUNNING \<longrightarrow>
              unat (priority (task_pool s ! f)) < PRIORITY_LEVELS
              \<and> f \<notin> set (queues_of s ! unat (priority (task_pool s ! f))))"
  shows "context_switch cur cur s = Some s
     \<and> (\<exists>s'. context_switch cur (Some to) s = Some s'
          \<and> total_context_switches (stats s') = total_context_switches (stats s) + 1
          \<and> current_task s' = Some to
          \<and> state (task_pool s' ! to) = TASK_RUNNING
          \<and> time_slice_remaining (task_pool s' ! to) = of_nat TIME_SLICE_MS
          \<and> queues_ok s' (queues_of s')
          \<and> (\<forall>q<PRIORITY_LEVELS. to \<notin> set (queues_of s' ! q))
          \<and> (case cur of
                None \<Rightarrow> queues_of s' = (queues_of s)[p := remove1 to (queues_of s ! p)]
              | Some f \<Rightarrow>
                  last_run_time (task_pool s' ! f) = system_tick_count s
                  \<and> (if state (task_pool s ! f) = TASK_RUNNING
                     then total_runtime (task_pool s' ! f) = total_runtime (task_pool s ! f) + 1
                        \<and> state (task_pool s' ! f) = TASK_READY
                        \<and> queues_of s' =
                            (let pf = unat (priority (task_pool s ! f));
                                 q1 = (queues_of s)[pf := queues_of s ! pf @ [f]]
                             in q1[p := remove1 to (q1 ! p)])
                     else total_runtime (task_pool s' ! f) = total_runtime (task_pool s ! f)
                        \<and> state (task_pool s' ! f) = state (task_pool s ! f)
                        \<and> queues_of s' = (queues_of s)[p := remove1 to (queues_of s ! p)])))"
proof -
  let ?qs = "queues_of s"
  note q = assms(1) and p = assms(2) and tin = assms(3)
  note D = queues_okD [OF q]
  have tl: "to < MAX_TASKS" and tp: "unat (priority (task_pool s ! to)) = p"
    using D(8,9) [OF p tin] by simp_all
  have cur: "\<And>c. cur = Some c \<Longrightarrow> c < MAX_TASKS \<and> c \<noteq> to \<and>
               (state (task_pool s ! c) = TASK_RUNNING \<longrightarrow>
                  unat (priority (task_pool s ! c)) < PRIORITY_LEVELS
                  \<and> c \<notin> set (?qs ! unat (priority (task_pool s ! c))))"
    using assms(4) by simp
  have curc: "\<forall>c. cur = Some c \<longrightarrow> c < MAX_TASKS \<and> c \<noteq> to" using assms(4) by simp
  from context_switch_queues [OF q p tin cur] obtain s' where
    sw: "context_switch cur (Some to) s = Some s'"
    and q': "queues_ok s' (switch_queues cur to s ?qs)"
    and bk: "bookkeeping s' = bookkeeping (switch_records cur to s)" by blast
  note S = switch_view [OF bk D(1) tl curc]
  have qs': "queues_of s' = switch_queues cur to s ?qs" using q' by (rule queues_of_unique)
  note D' = queues_okD [OF q']
  have rq: "requeue cur s ?qs ! p =
           (case cur of
              None \<Rightarrow> ?qs ! p
            | Some c \<Rightarrow>
                if state (task_pool s ! c) = TASK_RUNNING \<and> unat (priority (task_pool s ! c)) = p
                then ?qs ! p @ [c] else ?qs ! p)"
    using requeue_nth [OF D(4) p] .
  have dr: "distinct (requeue cur s ?qs ! p)"
    using D(6) [OF p] cur unfolding rq by (auto split: option.splits)
  have nt: "to \<notin> set (switch_queues cur to s ?qs ! q)" if q4: "q < PRIORITY_LEVELS" for q
  proof
    assume m: "to \<in> set (switch_queues cur to s ?qs ! q)"
    have "unat (priority (task_pool s' ! to)) = q" using D'(9) [OF q4 m] .
    then have "q = p" using S(8) [OF tl] tp by simp
    then have "to \<in> set (remove1 to (requeue cur s ?qs ! p))"
      using m switch_queues_nth [OF D(4) p, of cur to s] tp by simp
    then show False using dr by simp
  qed
  have st: "state (task_pool s' ! to) = TASK_RUNNING"
    and sl: "time_slice_remaining (task_pool s' ! to) = of_nat TIME_SLICE_MS"
    using S(7,10) [OF tl] by simp_all
  have tail: "case cur of
                None \<Rightarrow> queues_of s' = ?qs[p := remove1 to (?qs ! p)]
              | Some f \<Rightarrow>
                  last_run_time (task_pool s' ! f) = system_tick_count s
                  \<and> (if state (task_pool s ! f) = TASK_RUNNING
                     then total_runtime (task_pool s' ! f) = total_runtime (task_pool s ! f) + 1
                        \<and> state (task_pool s' ! f) = TASK_READY
                        \<and> queues_of s' =
                            (let pf = unat (priority (task_pool s ! f));
                                 q1 = ?qs[pf := ?qs ! pf @ [f]]
                             in q1[p := remove1 to (q1 ! p)])
                     else total_runtime (task_pool s' ! f) = total_runtime (task_pool s ! f)
                        \<and> state (task_pool s' ! f) = state (task_pool s ! f)
                        \<and> queues_of s' = ?qs[p := remove1 to (?qs ! p)])"
  proof (cases cur)
    case None
    then show ?thesis by (simp add: qs' switch_queues_def requeue_def tp Let_def)
  next
    case (Some f)
    have f: "f < MAX_TASKS" "f \<noteq> to" using cur [OF Some] by simp_all
    show ?thesis
      using Some f S(7,11,12) [OF f(1)]
      by (simp add: qs' switch_queues_def requeue_def tp Let_def)
  qed
  have "total_context_switches (stats s') = total_context_switches (stats s) + 1"
    using S(6) by simp
  then show ?thesis
    using sw S(1) st sl q' nt tail unfolding qs' [symmetric] by auto
qed

theorem context_switch_effect_witness:
  "queues_ok demo (queues_of demo) \<and> 2 \<in> set (queues_of demo ! 1)
   \<and> state (task_pool demo ! 1) = TASK_RUNNING \<and> 1 \<notin> set (queues_of demo ! 1)
   \<and> (\<exists>s'. context_switch (Some 1) (Some 2) demo = Some s'
         \<and> total_context_switches (stats s') = 2
         \<and> current_task s' = Some 2
         \<and> state (task_pool s' ! 2) = TASK_RUNNING
         \<and> time_slice_remaining (task_pool s' ! 2) = 10
         \<and> last_run_time (task_pool s' ! 1) = 0
         \<and> total_runtime (task_pool s' ! 1) = 1
         \<and> state (task_pool s' ! 1) = TASK_READY
         \<and> queues_of s' = [[], [3, 1], [], [0]])"
proof -
  have q: "queues_ok demo (queues_of demo)"
    using kernel_okD [OF demo_ok] by (simp add: kernel_inv_def)
  have p: "(1::nat) < PRIORITY_LEVELS" by (simp add: PRIORITY_LEVELS_def)
  have tin: "2 \<in> set (queues_of demo ! 1)" by (simp add: demo_queues)
  have d: "state (task_pool demo ! 1) = TASK_RUNNING" "unat (priority (task_pool demo ! 1)) = 1"
    "total_context_switches (stats demo) = 1" "system_tick_count demo = 0"
    "total_runtime (task_pool demo ! 1) = 0"
    by (simp_all add: demo_def)
  have fr: "\<forall>f. Some (1::nat) = Some f \<longrightarrow> f < MAX_TASKS \<and> f \<noteq> 2 \<and>
           (state (task_pool demo ! f) = TASK_RUNNING \<longrightarrow>
              unat (priority (task_pool demo ! f)) < PRIORITY_LEVELS
              \<and> f \<notin> set (queues_of demo ! unat (priority (task_pool demo ! f))))"
    using d by (simp add: demo_queues MAX_TASKS_def PRIORITY_LEVELS_def)
  from context_switch_effect [OF q p tin fr] d
  have "\<exists>s'. context_switch (Some 1) (Some 2) demo = Some s'
         \<and> total_context_switches (stats s') = 2
         \<and> current_task s' = Some 2
         \<and> state (task_pool s' ! 2) = TASK_RUNNING
         \<and> time_slice_remaining (task_pool s' ! 2) = 10
         \<and> last_run_time (task_pool s' ! 1) = 0
         \<and> total_runtime (task_pool s' ! 1) = 1
         \<and> state (task_pool s' ! 1) = TASK_READY
         \<and> queues_of s' = [[], [3, 1], [], [0]]"
    by (auto simp: demo_queues TIME_SLICE_MS_def Let_def)
  then show ?thesis using q tin d by (simp add: demo_queues)
qed

section \<open>Task creation\<close>

text \<open>
  What \<open>task_create\<close> does on well-formed ready queues.  A request whose priority is not
  below \<open>PRIORITY_LEVELS\<close>, whose stack size exceeds \<open>STACK_SIZE\<close>, or that finds every
  slot of the pool in use returns 0 and leaves the kernel unchanged.  Every other request
  takes the first free slot and returns the id it stored there, which is the value of
  \<open>next_task_id\<close> before the call: the new task is in state \<open>TASK_READY\<close> with the
  requested priority, it is appended at the tail of the ready queue of that priority, all
  other queues are as before, and \<open>tasks_created\<close> has grown by one.
\<close>

lemma task_create_effect:
  assumes "queues_ok s (queues_of s)" and "tasks_ok s (queues_of s)"
  shows "\<exists>r s'. task_create nm prio stk s = Some (r, s')
     \<and> (if \<not> unat prio < PRIORITY_LEVELS \<or> STACK_SIZE < unat stk
             \<or> (\<forall>i<MAX_TASKS. task_pool_used s ! i)
         then r = 0 \<and> s' = s
         else r = next_task_id s
           \<and> (\<exists>slot<MAX_TASKS. \<not> task_pool_used s ! slot \<and> task_pool_used s' ! slot
                \<and> task_id (task_pool s' ! slot) = r
                \<and> state (task_pool s' ! slot) = TASK_READY
                \<and> priority (task_pool s' ! slot) = prio
                \<and> queues_ok s' (queues_of s')
                \<and> queues_of s' = (queues_of s)[unat prio := queues_of s ! unat prio @ [slot]]
                \<and> tasks_created (stats s') = tasks_created (stats s) + 1))"
proof -
  note q = assms(1) and ok = assms(2)
  note D = queues_okD [OF q]
  have full: "find_free_slot [0..<MAX_TASKS] s = None \<longleftrightarrow> (\<forall>i<MAX_TASKS. task_pool_used s ! i)"
    by (auto simp: find_free_slot_None)
  show ?thesis
  proof (cases "\<not> unat prio < PRIORITY_LEVELS \<or> STACK_SIZE < unat stk
                \<or> find_free_slot [0..<MAX_TASKS] s = None")
    case True
    with create_invalid [OF True, of nm] full show ?thesis by auto
  next
    case False
    then have p: "unat prio < PRIORITY_LEVELS" and stk: "\<not> unat stk > STACK_SIZE" by simp_all
    from False obtain slot where slot: "find_free_slot [0..<MAX_TASKS] s = Some slot" by auto
    have sl: "slot < MAX_TASKS" and free: "\<not> task_pool_used s ! slot"
      using find_free_slot_Some [OF slot] by simp_all
    have sll: "slot < length (task_pool s)" using sl D(1) by simp
    from create_ok [OF q ok p stk slot, of nm] obtain s' where
      run: "task_create nm prio stk s = Some (next_task_id s, s')"
      and q': "queues_ok s' ((queues_of s)[unat prio := queues_of s ! unat prio @ [slot]])"
      and bk: "bookkeeping s' = bookkeeping (create_records nm prio stk slot s)" by blast
    note F = create_records_fields [OF sll, where nm = nm and prio = prio and stk = stk]
    have len: "length (task_pool (create_records nm prio stk slot s)) = MAX_TASKS"
      using F(8) D(1) by simp
    note V = bookkeeping_view [OF bk len]
    have qs': "queues_of s' = (queues_of s)[unat prio := queues_of s ! unat prio @ [slot]]"
      using q' by (rule queues_of_unique)
    have u: "task_pool_used s' ! slot" using V(2) F(1) sl D(2) by simp
    have tid: "task_id (task_pool s' ! slot) = next_task_id s"
      using bookkeeping_fields(7) [OF bk, of slot] F(8,11) sll V(1) D(1) by simp
    have st: "state (task_pool s' ! slot) = TASK_READY"
      and pr: "priority (task_pool s' ! slot) = prio"
      using V(8,9) [OF sl] F(11) by simp_all
    have cnt: "tasks_created (stats s') = tasks_created (stats s) + 1"
      using V(7) F(7) by simp
    have nfull: "\<not> (\<forall>i<MAX_TASKS. task_pool_used s ! i)" using sl free by auto
    have "\<exists>k<MAX_TASKS. \<not> task_pool_used s ! k \<and> task_pool_used s' ! k
             \<and> task_id (task_pool s' ! k) = next_task_id s
             \<and> state (task_pool s' ! k) = TASK_READY
             \<and> priority (task_pool s' ! k) = prio
             \<and> queues_ok s' (queues_of s')
             \<and> queues_of s' = (queues_of s)[unat prio := queues_of s ! unat prio @ [k]]
             \<and> tasks_created (stats s') = tasks_created (stats s) + 1"
      using sl free u tid st pr q' qs' cnt by (intro exI [of _ slot]) simp
    then show ?thesis using run p stk nfull by auto
  qed
qed

lemma rtos_init_boot: "rtos_init boot = Some (0, inited 1)"
  by code_simp

lemma small_lists:
  "replicate 4 x = [x, x, x, x]"
  "replicate 8 y = [y, y, y, y, y, y, y, y]"
  "[0..<8] = [0, 1, 2, 3, 4, 5, 6, 7]"
  by (simp_all add: numeral_eq_Suc upt_rec)

lemma rtos_init_again:
  assumes "i + 1 \<noteq> 0"
  shows "rtos_init (inited i) = Some (0, inited (i + 1))"
  using assms
  by (simp add: rtos_init_def task_create_def inited_def Let_def
      MAX_TASKS_def PRIORITY_LEVELS_def STACK_SIZE_def TIME_SLICE_MS_def small_lists
      task_get_info_def add_task_to_ready_queue_def tcb_at_def tcb_upd_def
      zero_tcb_def zero_stats_def)

lemma rtos_inits_inited:
  "unat i + n < 2 ^ 32 \<Longrightarrow> rtos_inits n (inited i) = Some (inited (i + of_nat n))"
proof (induction n arbitrary: i)
  case 0
  then show ?case by simp
next
  case (Suc n)
  have lt: "unat i + 1 < 2 ^ 32" using Suc.prems by simp
  then have u: "unat (i + 1) = unat i + 1" by (simp add: unat_add_lem [THEN iffD1])
  then have nz: "i + 1 \<noteq> 0" by (metis Suc_eq_plus1 nat.simps(3) unat_0)
  have "unat (i + 1) + n < 2 ^ 32" using Suc.prems u by simp
  from Suc.IH [OF this] rtos_init_again [OF nz]
  show ?case by (simp add: add.assoc)
qed

lemma rtos_inits_boot: "rtos_inits 4294967295 boot = Some (inited 4294967295)"
proof -
  have "(4294967295::nat) = Suc 4294967294" by simp
  then have "rtos_inits 4294967295 boot = rtos_inits (Suc 4294967294) boot" by (rule arg_cong)
  also have "\<dots> = rtos_inits 4294967294 (inited 1)"
    by (simp only: rtos_inits.simps rtos_init_boot option.case prod.case simp_thms if_True)
  also have "\<dots> = Some (inited (1 + of_nat 4294967294))"
    by (rule rtos_inits_inited) simp
  finally show ?thesis by simp
qed

lemma inited_wrapped_ok: "kernel_ok (inited 4294967295)"
proof -
  have "kernel_check (inited 4294967295)" by code_simp
  then show ?thesis by (rule kernel_check_ok)
qed

lemma inited_wrapped_create:
  "(case task_create ''A'' 1 512 (inited 4294967295) of
      None \<Rightarrow> False
    | Some (r, s') \<Rightarrow>
        r = 0 \<and> s' \<noteq> inited 4294967295 \<and> task_pool_used s' ! 1
        \<and> task_id (task_pool s' ! 1) = 0 \<and> state (task_pool s' ! 1) = TASK_READY
        \<and> queues_of s' = [[], [1], [], [0]] \<and> tasks_created (stats s') = 2)"
  by code_simp

lemma inited_wrapped_before:
  "next_task_id (inited 4294967295) = 0"
  "unat (1::8 word) < PRIORITY_LEVELS" "unat (512::32 word) \<le> STACK_SIZE"
  "task_pool_used (inited 4294967295) ! 1 = False"
  "queues_of (inited 4294967295) = [[], [], [], [0]]"
  "tasks_created (stats (inited 4294967295)) = 1"
  by code_simp+

text \<open>
  C5.  \<^verbatim>\<open>task_create\<close> returns the id it has just stored, \<open>next_task_id\<close>, and that
  counter is a \<^verbatim>\<open>uint32_t\<close> which \<^verbatim>\<open>rtos_init\<close> does not reset: every call of
  \<^verbatim>\<open>rtos_init\<close> clears the pool and spends one id on the idle task.  After 4294967295
  successful calls of \<^verbatim>\<open>rtos_init\<close> from program start the kernel is well formed, only
  the idle task exists, and the counter has wrapped to 0.  A request with priority 1 and
  stack size 512 is then valid and slot 1 is free, so the call must succeed; it does
  create the task (slot 1 is taken, the task is ready and queued at priority 1,
  \<open>tasks_created\<close> goes from 1 to 2), but the value it returns is 0, the failure value.
\<close>

theorem task_create_returns_failure_value_on_success:
  "\<exists>s s'. rtos_inits 4294967295 boot = Some s \<and> kernel_ok s \<and> next_task_id s = 0
      \<and> unat (1::8 word) < PRIORITY_LEVELS \<and> unat (512::32 word) \<le> STACK_SIZE
      \<and> task_pool_used s ! 1 = False
      \<and> task_create ''A'' 1 512 s = Some (0, s')
      \<and> s' \<noteq> s \<and> task_pool_used s' ! 1
      \<and> task_id (task_pool s' ! 1) = 0 \<and> state (task_pool s' ! 1) = TASK_READY
      \<and> queues_of s = [[], [], [], [0]] \<and> queues_of s' = [[], [1], [], [0]]
      \<and> tasks_created (stats s) = 1 \<and> tasks_created (stats s') = 2"
proof -
  obtain r s' where c: "task_create ''A'' 1 512 (inited 4294967295) = Some (r, s')"
    using inited_wrapped_create
    by (cases "task_create ''A'' 1 512 (inited 4294967295)") auto
  have e: "r = 0" "s' \<noteq> inited 4294967295" "task_pool_used s' ! 1"
    "task_id (task_pool s' ! 1) = 0" "state (task_pool s' ! 1) = TASK_READY"
    "queues_of s' = [[], [1], [], [0]]" "tasks_created (stats s') = 2"
    using inited_wrapped_create unfolding c by simp_all
  show ?thesis
    using rtos_inits_boot inited_wrapped_ok inited_wrapped_before c e
    by (intro exI [of _ "inited 4294967295"] exI [of _ s']) simp
qed

section \<open>Sleeping and waking\<close>

lemma tick_slice_other:
  "state (task_pool (tick_slice c s) ! j) = state (task_pool s ! j)"
  "wake_time (task_pool (tick_slice c s) ! j) = wake_time (task_pool s ! j)"
  by (simp_all add: tick_slice_def tcb_upd_nth)

lemma ticks_Suc_end:
  "ticks (Suc n) s = (case ticks n s of None \<Rightarrow> None | Some s' \<Rightarrow> scheduler_tick s')"
proof (induction n arbitrary: s)
  case 0
  show ?case by (cases "scheduler_tick s") simp_all
next
  case (Suc n)
  show ?case
  proof (cases "scheduler_tick s")
    case None
    then show ?thesis by simp
  next
    case (Some s1)
    have "ticks (Suc (Suc n)) s = ticks (Suc n) s1" using Some by simp
    also have "\<dots> = (case ticks n s1 of None \<Rightarrow> None | Some s' \<Rightarrow> scheduler_tick s')"
      by (rule Suc.IH)
    also have "ticks n s1 = ticks (Suc n) s" using Some by simp
    finally show ?thesis .
  qed
qed

text \<open>
  One tick as seen by a task \<open>j\<close> that sleeps until tick \<open>w\<close>, later than now: the sweep of
  this tick wakes it exactly when the incremented counter reaches \<open>w\<close>.
\<close>

lemma sleeper_tick:
  assumes inv: "kernel_inv s qs" and run: "scheduler_running s"
    and c: "current_task s = Some c"
    and j: "j < MAX_TASKS" and ju: "task_pool_used s ! j"
    and jb: "state (task_pool s ! j) = TASK_BLOCKED"
    and jw: "wake_time (task_pool s ! j) = w"
    and early: "unat (system_tick_count s) < unat w"
  shows "\<exists>sw s' qs' c'.
           wake_sleeping_tasks (tick_slice c (tick_count s)) = Some sw
           \<and> scheduler_tick s = Some s' \<and> kernel_inv s' qs' \<and> scheduler_running s'
           \<and> current_task s' = Some c' \<and> task_pool_used s' ! j
           \<and> unat (system_tick_count s') = unat (system_tick_count s) + 1
           \<and> (if unat (system_tick_count s) + 1 = unat w
              then state (task_pool sw ! j) = TASK_READY
                 \<and> (state (task_pool s' ! j) = TASK_READY \<or> state (task_pool s' ! j) = TASK_RUNNING)
                 \<and> wake_time (task_pool s' ! j) = 0
              else state (task_pool sw ! j) = TASK_BLOCKED
                 \<and> state (task_pool s' ! j) = TASK_BLOCKED
                 \<and> wake_time (task_pool s' ! j) = w)"
proof -
  have ok: "tasks_ok s qs" using inv by (simp add: kernel_inv_def)
  note T = tasks_okD [OF ok]
  have len: "length (task_pool s) = MAX_TASKS"
    using inv by (simp add: kernel_inv_def queues_ok_def)
  have cl: "c < MAX_TASKS" and cu: "task_pool_used s ! c" using T(6,7) [OF c] by simp_all
  have "state (task_pool s ! c) = TASK_RUNNING" using T(5) [OF cl cu] c by simp
  then have jc: "j \<noteq> c" using jb by auto
  let ?x = "tick_slice c (tick_count s)"
  from tick_effect [OF inv run c] obtain s3 qs3 s' qs' where
    wake: "wake_sleeping_tasks ?x = Some s3"
    and inv3: "kernel_inv s3 qs3"
    and bk3: "bookkeeping s3 = bookkeeping (fold wake_records [0..<MAX_TASKS] ?x)"
    and tick: "scheduler_tick s = Some s'" and inv': "kernel_inv s' qs'"
    and eff: "s' = s3 \<or> (\<exists>p. first_nonempty qs3 = Some p
                  \<and> bookkeeping s' = bookkeeping (switch_records (Some c) (hd (qs3 ! p)) s3))"
    by blast
  have lx: "length (task_pool ?x) = MAX_TASKS" using len by simp
  note W = sweep_view [OF bk3 lx]
  have len3: "length (task_pool s3) = MAX_TASKS"
    using inv3 by (simp add: kernel_inv_def queues_ok_def)
  have w32: "unat w < 2 ^ 32" using unsigned_less [of w] by simp
  have cnt: "unat (system_tick_count s + 1) = unat (system_tick_count s) + 1"
    using early w32 by (simp add: unat_word_ariths)
  have wpos: "0 < w" using early by (simp add: word_less_nat_alt)
  have due: "wake_due ?x j \<longleftrightarrow> unat (system_tick_count s) + 1 = unat w"
    using ju jb jw wpos early cnt
    by (auto simp: wake_due_def tick_slice_other word_le_nat_alt)
  have c3: "current_task s3 = Some c" and r3: "scheduler_running s3"
    and u3: "task_pool_used s3 ! j"
    and t3: "unat (system_tick_count s3) = unat (system_tick_count s) + 1"
    using W(1,2,4,5) c run ju cnt by simp_all
  have st3: "state (task_pool s3 ! j) =
      (if unat (system_tick_count s) + 1 = unat w then TASK_READY else TASK_BLOCKED)"
    and wt3: "wake_time (task_pool s3 ! j) =
      (if unat (system_tick_count s) + 1 = unat w then 0 else w)"
    using W(7,8) [OF j] due jb jw by (simp_all add: tick_slice_other)
  have fin: "scheduler_running s' \<and> (\<exists>c'. current_task s' = Some c') \<and> task_pool_used s' ! j
      \<and> system_tick_count s' = system_tick_count s3
      \<and> wake_time (task_pool s' ! j) = wake_time (task_pool s3 ! j)
      \<and> (state (task_pool s' ! j) = state (task_pool s3 ! j)
         \<or> state (task_pool s3 ! j) = TASK_READY \<and> state (task_pool s' ! j) = TASK_RUNNING)"
    using eff
  proof
    assume "s' = s3"
    then show ?thesis using c3 r3 u3 by simp
  next
    assume "\<exists>p. first_nonempty qs3 = Some p
                  \<and> bookkeeping s' = bookkeeping (switch_records (Some c) (hd (qs3 ! p)) s3)"
    then obtain p where f: "first_nonempty qs3 = Some p"
      and bk': "bookkeeping s' = bookkeeping (switch_records (Some c) (hd (qs3 ! p)) s3)"
      by blast
    define h where "h = hd (qs3 ! p)"
    note H = head_facts [OF inv3 f, folded h_def]
    have curc: "\<forall>k. Some c = Some k \<longrightarrow> k < MAX_TASKS \<and> k \<noteq> h"
      using cl H(5) c3 by simp
    note S = switch_view [OF bk' [folded h_def] len3 H(1) curc]
    have st': "state (task_pool s' ! j) =
        (if j = h then TASK_RUNNING else state (task_pool s3 ! j))"
      using S(7) [OF j] jc by simp
    have "state (task_pool s' ! j) = state (task_pool s3 ! j)
         \<or> state (task_pool s3 ! j) = TASK_READY \<and> state (task_pool s' ! j) = TASK_RUNNING"
      using st' H(3) by (cases "j = h") simp_all
    then show ?thesis using S(1,2,4,5) S(9) [OF j] r3 u3 by simp
  qed
  then obtain c' where c': "current_task s' = Some c'" by blast
  have t': "unat (system_tick_count s') = unat (system_tick_count s) + 1"
    using fin t3 by simp
  have body: "if unat (system_tick_count s) + 1 = unat w
              then state (task_pool s3 ! j) = TASK_READY
                 \<and> (state (task_pool s' ! j) = TASK_READY \<or> state (task_pool s' ! j) = TASK_RUNNING)
                 \<and> wake_time (task_pool s' ! j) = 0
              else state (task_pool s3 ! j) = TASK_BLOCKED
                 \<and> state (task_pool s' ! j) = TASK_BLOCKED
                 \<and> wake_time (task_pool s' ! j) = w"
  proof (cases "unat (system_tick_count s) + 1 = unat w")
    case True
    then have "state (task_pool s3 ! j) = TASK_READY" "wake_time (task_pool s3 ! j) = 0"
      using st3 wt3 by simp_all
    then show ?thesis using True fin by auto
  next
    case False
    then have "state (task_pool s3 ! j) = TASK_BLOCKED" "wake_time (task_pool s3 ! j) = w"
      using st3 wt3 by simp_all
    then show ?thesis using False fin by auto
  qed
  have "wake_sleeping_tasks (tick_slice c (tick_count s)) = Some s3
           \<and> scheduler_tick s = Some s' \<and> kernel_inv s' qs' \<and> scheduler_running s'
           \<and> current_task s' = Some c' \<and> task_pool_used s' ! j
           \<and> unat (system_tick_count s') = unat (system_tick_count s) + 1
           \<and> (if unat (system_tick_count s) + 1 = unat w
              then state (task_pool s3 ! j) = TASK_READY
                 \<and> (state (task_pool s' ! j) = TASK_READY \<or> state (task_pool s' ! j) = TASK_RUNNING)
                 \<and> wake_time (task_pool s' ! j) = 0
              else state (task_pool s3 ! j) = TASK_BLOCKED
                 \<and> state (task_pool s' ! j) = TASK_BLOCKED
                 \<and> wake_time (task_pool s' ! j) = w)"
    using wake tick inv' fin c' t' body by (intro conjI) simp_all
  then show ?thesis by blast
qed

lemma sleeper_ticks:
  assumes "kernel_inv s qs" and "scheduler_running s" and "current_task s = Some c"
    and "j < MAX_TASKS" and "task_pool_used s ! j"
    and "state (task_pool s ! j) = TASK_BLOCKED"
    and "wake_time (task_pool s ! j) = w"
    and "unat (system_tick_count s) + n < unat w"
  shows "\<exists>s' qs' c'. ticks n s = Some s' \<and> kernel_inv s' qs' \<and> scheduler_running s'
           \<and> current_task s' = Some c' \<and> task_pool_used s' ! j
           \<and> state (task_pool s' ! j) = TASK_BLOCKED \<and> wake_time (task_pool s' ! j) = w
           \<and> unat (system_tick_count s') = unat (system_tick_count s) + n"
  using assms
proof (induction n arbitrary: s qs c)
  case 0
  then show ?case by auto
next
  case (Suc n)
  have early: "unat (system_tick_count s) < unat w" using Suc.prems(8) by simp
  have ne: "unat (system_tick_count s) + 1 \<noteq> unat w" using Suc.prems(8) by simp
  from sleeper_tick [OF Suc.prems(1-7) early] ne
  obtain s1 qs1 c1 where tick: "scheduler_tick s = Some s1" and inv1: "kernel_inv s1 qs1"
    and run1: "scheduler_running s1" and c1: "current_task s1 = Some c1"
    and u1: "task_pool_used s1 ! j" and b1: "state (task_pool s1 ! j) = TASK_BLOCKED"
    and w1: "wake_time (task_pool s1 ! j) = w"
    and t1: "unat (system_tick_count s1) = unat (system_tick_count s) + 1"
    by auto
  have "unat (system_tick_count s1) + n < unat w" using t1 Suc.prems(8) by simp
  from Suc.IH [OF inv1 run1 c1 Suc.prems(4) u1 b1 w1 this] tick t1
  show ?case by auto
qed

text \<open>
  C2, as stated, fails for \<^verbatim>\<open>task_sleep(0)\<close> at tick 0.  After \<^verbatim>\<open>rtos_init\<close>, three tasks
  created at priority 1 and \<^verbatim>\<open>rtos_start\<close>, task A (slot 1) runs at tick 0.  It calls
  \<^verbatim>\<open>task_sleep(0)\<close>: its \<open>wake_time\<close> becomes \<open>0 + 0 = 0\<close> and its state \<open>TASK_BLOCKED\<close>.  The
  sweep only wakes a blocked task whose \<open>wake_time\<close> is greater than 0, so the task is not
  ready at tick \<open>0 + 0\<close>, nor at tick 1, 2 or 50: it is blocked at each of them.
\<close>

theorem sleep_zero_at_tick_zero_stays_blocked:
  "(case three_tasks of
      None \<Rightarrow> False
    | Some s \<Rightarrow>
        (case task_sleep 0 s of
           None \<Rightarrow> False
         | Some s1 \<Rightarrow>
             current_task s = Some 1 \<and> system_tick_count s = 0
             \<and> state (task_pool s ! 1) = TASK_RUNNING
             \<and> state (task_pool s1 ! 1) = TASK_BLOCKED \<and> wake_time (task_pool s1 ! 1) = 0
             \<and> map (\<lambda>n. case ticks n s1 of
                            None \<Rightarrow> None
                          | Some s2 \<Rightarrow> Some (system_tick_count s2, state (task_pool s2 ! 1)))
                  [0, 1, 2, 50]
                = [Some (0, TASK_BLOCKED), Some (1, TASK_BLOCKED), Some (2, TASK_BLOCKED),
                   Some (50, TASK_BLOCKED)]))"
  by code_simp

text \<open>
  C2, amended.  On a well-formed kernel with the scheduler running, let the current task
  \<open>c\<close>, which is not the idle task, call \<^verbatim>\<open>task_sleep(ms)\<close> at tick \<open>T\<close> with \<open>ms\<close> at least 1 and
  \<open>T + ms\<close> below \<open>2^32\<close> (one tick is one millisecond).  Then \<open>c\<close> is in state
  \<open>TASK_BLOCKED\<close> with \<open>wake_time = T + ms\<close> as soon as the call returns, another task is
  the current one, and the tick counter has not moved.  After every number \<open>n < ms\<close> of
  ticks the counter is \<open>T + n\<close> and \<open>c\<close> is still blocked.  In the tick that brings the
  counter to \<open>T + ms\<close> the wake sweep sets \<open>c\<close> to \<open>TASK_READY\<close>; at the end of that
  tick the kernel is well formed, \<open>wake_time\<close> is 0, and \<open>c\<close> is ready or, if that same
  tick dispatched it, running.
\<close>

theorem sleep_wakes_on_time:
  assumes "kernel_ok s" and "scheduler_running s" and "current_task s = Some c"
    and "idle_task s \<noteq> Some c"
    and "ms \<noteq> 0" and "unat (system_tick_count s) + unat ms < 2 ^ 32"
  shows "\<exists>s1. task_sleep ms s = Some s1
      \<and> state (task_pool s1 ! c) = TASK_BLOCKED
      \<and> wake_time (task_pool s1 ! c) = system_tick_count s + ms
      \<and> current_task s1 \<noteq> Some c \<and> current_task s1 \<noteq> None
      \<and> system_tick_count s1 = system_tick_count s
      \<and> (\<forall>n<unat ms. \<exists>s2. ticks n s1 = Some s2
             \<and> unat (system_tick_count s2) = unat (system_tick_count s) + n
             \<and> state (task_pool s2 ! c) = TASK_BLOCKED)
      \<and> (\<exists>s2 cur sw s3. ticks (unat ms - 1) s1 = Some s2 \<and> current_task s2 = Some cur
             \<and> wake_sleeping_tasks (tick_slice cur (tick_count s2)) = Some sw
             \<and> state (task_pool sw ! c) = TASK_READY
             \<and> ticks (unat ms) s1 = Some s3 \<and> kernel_ok s3
             \<and> unat (system_tick_count s3) = unat (system_tick_count s) + unat ms
             \<and> (state (task_pool s3 ! c) = TASK_READY \<or> state (task_pool s3 ! c) = TASK_RUNNING)
             \<and> wake_time (task_pool s3 ! c) = 0)"
proof -
  note run = assms(2) and c = assms(3) and ni = assms(4) and ms = assms(5) and nowrap = assms(6)
  have inv: "kernel_inv s (queues_of s)" using assms(1) by (rule kernel_okD)
  have ok: "tasks_ok s (queues_of s)" using inv by (simp add: kernel_inv_def)
  note T = tasks_okD [OF ok]
  have len: "length (task_pool s) = MAX_TASKS"
    using inv by (simp add: kernel_inv_def queues_ok_def)
  have cl: "c < MAX_TASKS" and cu: "task_pool_used s ! c" using T(6,7) [OF c] by simp_all
  from sleep_ok [OF inv run c ni, of ms] obtain s1 qs1 p where
    sl: "task_sleep ms s = Some s1" and inv1: "kernel_inv s1 qs1"
    and f: "first_nonempty (queues_of s) = Some p"
    and bk1: "bookkeeping s1 = bookkeeping
                (switch_records (Some c) (hd (queues_of s ! p)) (sleep_records c ms s))"
    by blast
  define h where "h = hd (queues_of s ! p)"
  define x where "x = sleep_records c ms s"
  note H = head_facts [OF inv f, folded h_def]
  have lx: "length (task_pool x) = MAX_TASKS" using len by (simp add: x_def)
  have curc: "\<forall>k. Some c = Some k \<longrightarrow> k < MAX_TASKS \<and> k \<noteq> h"
    using cl H(5) c by simp
  note S = switch_view [OF bk1 [folded h_def x_def] lx H(1) curc]
  have xc: "state (task_pool x ! c) = TASK_BLOCKED"
    "wake_time (task_pool x ! c) = system_tick_count s + ms"
    using cl len by (simp_all add: x_def sleep_records_nth)
  have ch: "c \<noteq> h" using H(5) c by simp
  define w where "w = system_tick_count s + ms"
  have b1: "state (task_pool s1 ! c) = TASK_BLOCKED"
    using S(7) [OF cl] ch xc by simp
  have w1: "wake_time (task_pool s1 ! c) = w"
    using S(9) [OF cl] xc by (simp add: w_def)
  have c1: "current_task s1 = Some h" using S(1) .
  have u1: "task_pool_used s1 ! c" using S(2) cu by (simp add: x_def)
  have t1: "system_tick_count s1 = system_tick_count s" using S(4) by (simp add: x_def)
  have r1: "scheduler_running s1" using S(5) run by (simp add: x_def)
  have uw: "unat w = unat (system_tick_count s) + unat ms"
    unfolding w_def using nowrap by (simp add: unat_add_lem [THEN iffD1])
  have mpos: "0 < unat ms" using ms by (simp add: unat_gt_0)
  have blocked: "\<exists>s2 qs2 c2. ticks n s1 = Some s2 \<and> kernel_inv s2 qs2 \<and> scheduler_running s2
           \<and> current_task s2 = Some c2 \<and> task_pool_used s2 ! c
           \<and> state (task_pool s2 ! c) = TASK_BLOCKED \<and> wake_time (task_pool s2 ! c) = w
           \<and> unat (system_tick_count s2) = unat (system_tick_count s) + n"
    if n: "n < unat ms" for n
  proof -
    have "unat (system_tick_count s1) + n < unat w" using n uw t1 by simp
    from sleeper_ticks [OF inv1 r1 c1 cl u1 b1 w1 this] show ?thesis by (simp add: t1)
  qed
  define k where "k = unat ms - 1"
  have k: "k < unat ms" "Suc k = unat ms" using mpos by (simp_all add: k_def)
  from blocked [OF k(1)] obtain s2 qs2 c2 where
    tk: "ticks k s1 = Some s2" and inv2: "kernel_inv s2 qs2" and r2: "scheduler_running s2"
    and c2: "current_task s2 = Some c2" and u2: "task_pool_used s2 ! c"
    and b2: "state (task_pool s2 ! c) = TASK_BLOCKED" and w2: "wake_time (task_pool s2 ! c) = w"
    and t2: "unat (system_tick_count s2) = unat (system_tick_count s) + k" by blast
  have early: "unat (system_tick_count s2) < unat w" using t2 uw k by simp
  have due: "unat (system_tick_count s2) + 1 = unat w" using t2 uw k by simp
  from sleeper_tick [OF inv2 r2 c2 cl u2 b2 w2 early] due
  obtain sw s3 qs3 where
    sweep: "wake_sleeping_tasks (tick_slice c2 (tick_count s2)) = Some sw"
    and tick: "scheduler_tick s2 = Some s3" and inv3: "kernel_inv s3 qs3"
    and t3: "unat (system_tick_count s3) = unat (system_tick_count s2) + 1"
    and rw: "state (task_pool sw ! c) = TASK_READY"
    and r3: "state (task_pool s3 ! c) = TASK_READY \<or> state (task_pool s3 ! c) = TASK_RUNNING"
    and w3: "wake_time (task_pool s3 ! c) = 0"
    by auto
  have "ticks (Suc k) s1 = Some s3" using tk tick by (simp only: ticks_Suc_end option.case)
  then have tm: "ticks (unat ms) s1 = Some s3" using k(2) by simp
  have ok3: "kernel_ok s3" using inv3 by (rule kernel_okI)
  have t3': "unat (system_tick_count s3) = unat (system_tick_count s) + unat ms"
    using t3 t2 k by simp
  have fin: "\<exists>s2 cur sw s3. ticks (unat ms - 1) s1 = Some s2 \<and> current_task s2 = Some cur
             \<and> wake_sleeping_tasks (tick_slice cur (tick_count s2)) = Some sw
             \<and> state (task_pool sw ! c) = TASK_READY
             \<and> ticks (unat ms) s1 = Some s3 \<and> kernel_ok s3
             \<and> unat (system_tick_count s3) = unat (system_tick_count s) + unat ms
             \<and> (state (task_pool s3 ! c) = TASK_READY \<or> state (task_pool s3 ! c) = TASK_RUNNING)
             \<and> wake_time (task_pool s3 ! c) = 0"
    using tk [unfolded k_def] c2 sweep rw tm ok3 t3' r3 w3 by blast
  have mid: "\<forall>n<unat ms. \<exists>s2. ticks n s1 = Some s2
             \<and> unat (system_tick_count s2) = unat (system_tick_count s) + n
             \<and> state (task_pool s2 ! c) = TASK_BLOCKED"
    using blocked by blast
  have "state (task_pool s1 ! c) = TASK_BLOCKED
      \<and> wake_time (task_pool s1 ! c) = system_tick_count s + ms
      \<and> current_task s1 \<noteq> Some c \<and> current_task s1 \<noteq> None
      \<and> system_tick_count s1 = system_tick_count s"
    using b1 w1 c1 ch t1 by (simp add: w_def)
  with sl mid fin show ?thesis by blast
qed

theorem sleep_wakes_on_time_witness:
  "kernel_ok demo \<and> scheduler_running demo \<and> current_task demo = Some 1
   \<and> idle_task demo = Some 0 \<and> system_tick_count demo = 0
   \<and> (\<exists>s1. task_sleep 3 demo = Some s1
         \<and> state (task_pool s1 ! 1) = TASK_BLOCKED \<and> wake_time (task_pool s1 ! 1) = 3
         \<and> current_task s1 \<noteq> Some 1
         \<and> (\<exists>s2. ticks 2 s1 = Some s2 \<and> unat (system_tick_count s2) = 2
                \<and> state (task_pool s2 ! 1) = TASK_BLOCKED)
         \<and> (\<exists>s3. ticks 3 s1 = Some s3 \<and> kernel_ok s3 \<and> unat (system_tick_count s3) = 3
                \<and> (state (task_pool s3 ! 1) = TASK_READY
                   \<or> state (task_pool s3 ! 1) = TASK_RUNNING)
                \<and> wake_time (task_pool s3 ! 1) = 0))"
proof -
  have d: "scheduler_running demo" "current_task demo = Some 1" "idle_task demo \<noteq> Some 1"
    "system_tick_count demo = 0" "idle_task demo = Some 0"
    by (simp_all add: demo_def)
  have m: "(3::32 word) \<noteq> 0" "unat (system_tick_count demo) + unat (3::32 word) < 2 ^ 32"
    using d(4) by simp_all
  from sleep_wakes_on_time [OF demo_ok d(1,2,3) m] obtain s1 where
    sl: "task_sleep 3 demo = Some s1"
    and b: "state (task_pool s1 ! 1) = TASK_BLOCKED"
    and w: "wake_time (task_pool s1 ! 1) = system_tick_count demo + 3"
    and nc: "current_task s1 \<noteq> Some 1"
    and mid: "\<forall>n<unat (3::32 word). \<exists>s2. ticks n s1 = Some s2
             \<and> unat (system_tick_count s2) = unat (system_tick_count demo) + n
             \<and> state (task_pool s2 ! 1) = TASK_BLOCKED"
    and fin: "\<exists>s2 cur sw s3. ticks (unat (3::32 word) - 1) s1 = Some s2
             \<and> current_task s2 = Some cur
             \<and> wake_sleeping_tasks (tick_slice cur (tick_count s2)) = Some sw
             \<and> state (task_pool sw ! 1) = TASK_READY
             \<and> ticks (unat (3::32 word)) s1 = Some s3 \<and> kernel_ok s3
             \<and> unat (system_tick_count s3) = unat (system_tick_count demo) + unat (3::32 word)
             \<and> (state (task_pool s3 ! 1) = TASK_READY \<or> state (task_pool s3 ! 1) = TASK_RUNNING)
             \<and> wake_time (task_pool s3 ! 1) = 0"
    by blast
  have u3: "unat (3::32 word) = 3" by simp
  have z: "unat (system_tick_count demo) = 0" using d(4) by simp
  have "(2::nat) < unat (3::32 word)" unfolding u3 by simp
  with mid obtain s2 where a: "ticks 2 s1 = Some s2"
    "unat (system_tick_count s2) = unat (system_tick_count demo) + 2"
    "state (task_pool s2 ! 1) = TASK_BLOCKED" by blast
  have "unat (system_tick_count s2) = 2" using a(2) z by simp
  with a have two: "\<exists>s2. ticks 2 s1 = Some s2 \<and> unat (system_tick_count s2) = 2
                \<and> state (task_pool s2 ! 1) = TASK_BLOCKED"
    by blast
  from fin obtain s3 where e: "ticks (unat (3::32 word)) s1 = Some s3" "kernel_ok s3"
    "unat (system_tick_count s3) = unat (system_tick_count demo) + unat (3::32 word)"
    "state (task_pool s3 ! 1) = TASK_READY \<or> state (task_pool s3 ! 1) = TASK_RUNNING"
    "wake_time (task_pool s3 ! 1) = 0" by blast
  have "ticks 3 s1 = Some s3" using e(1) unfolding u3 .
  moreover have "unat (system_tick_count s3) = 3" using e(3) unfolding u3 z by simp
  ultimately have three: "\<exists>s3. ticks 3 s1 = Some s3 \<and> kernel_ok s3
                \<and> unat (system_tick_count s3) = 3
                \<and> (state (task_pool s3 ! 1) = TASK_READY
                   \<or> state (task_pool s3 ! 1) = TASK_RUNNING)
                \<and> wake_time (task_pool s3 ! 1) = 0"
    using e(2,4,5) by blast
  have "wake_time (task_pool s1 ! 1) = 3" using w d(4) by simp
  with sl b nc two three have "\<exists>s1. task_sleep 3 demo = Some s1
         \<and> state (task_pool s1 ! 1) = TASK_BLOCKED \<and> wake_time (task_pool s1 ! 1) = 3
         \<and> current_task s1 \<noteq> Some 1
         \<and> (\<exists>s2. ticks 2 s1 = Some s2 \<and> unat (system_tick_count s2) = 2
                \<and> state (task_pool s2 ! 1) = TASK_BLOCKED)
         \<and> (\<exists>s3. ticks 3 s1 = Some s3 \<and> kernel_ok s3 \<and> unat (system_tick_count s3) = 3
                \<and> (state (task_pool s3 ! 1) = TASK_READY
                   \<or> state (task_pool s3 ! 1) = TASK_RUNNING)
                \<and> wake_time (task_pool s3 ! 1) = 0)"
    by blast
  then show ?thesis using demo_ok d by simp
qed

end
